theory Spec2Isabelle
  imports Main
begin

section \<open>AsyncConcatenatedSeekableFile: a shallow embedding\<close>

text \<open>
  The Python class presents a tuple of seekable byte sources as one logical stream.
  The embedding is sequential: one caller, every \<^verbatim>\<open>await\<close> completes before the next
  statement, and the re-entrant lock is therefore invisible.  Python integers are
  \<^typ>\<open>int\<close>, \<^verbatim>\<open>bytes\<close> and \<^verbatim>\<open>bytearray\<close> are lists of 8-bit characters, and every
  exception is a value: an operation returns its result, or the exception it raised,
  together with the state it left behind.
\<close>

subsection \<open>Exceptions and results\<close>

type_synonym bytes = "char list"

datatype pyerr =
    ValueError string
  | ValueError_unknown_length nat
  | UnsupportedOperation
  | OSError
  | IndexError
  | TypeError
  | OverflowError
  | OtherError string

text \<open>\<^verbatim>\<open>io.UnsupportedOperation\<close> derives from \<^verbatim>\<open>OSError\<close> (and \<^verbatim>\<open>ValueError\<close>), so an
  \<^verbatim>\<open>except OSError\<close> clause catches both.\<close>

definition is_OSError :: "pyerr \<Rightarrow> bool" where
  "is_OSError e \<longleftrightarrow> e = OSError \<or> e = UnsupportedOperation"

definition closed_msg :: string where
  "closed_msg = ''I/O operation on closed file.''"

definition whence_msg :: string where
  "whence_msg = ''whence must be io.SEEK_SET (0), io.SEEK_CUR (1) or io.SEEK_END (2)''"

definition negative_count_msg :: string where
  "negative_count_msg = ''negative count''"

definition negative_len_msg :: string where
  "negative_len_msg = ''__len__() should return >= 0''"

definition SEEK_SET :: int where "SEEK_SET = 0"
definition SEEK_CUR :: int where "SEEK_CUR = 1"
definition SEEK_END :: int where "SEEK_END = 2"

text \<open>The largest value the builtin \<^verbatim>\<open>len\<close> returns on a 64-bit CPython.\<close>

definition sys_maxsize :: int where
  "sys_maxsize = 2 ^ 63 - 1"

subsection \<open>The interface of an underlying source\<close>

text \<open>
  A source is any \<^verbatim>\<open>io.IOBase\<close>-like object; the class only calls its methods.  The
  methods are the fields of \<open>io_ops\<close>, over a type \<open>'f\<close> of source states.  \<^verbatim>\<open>seek\<close>,
  \<^verbatim>\<open>read\<close> and \<^verbatim>\<open>close\<close> return the new state of the source; \<^verbatim>\<open>tell\<close>,
  \<^verbatim>\<open>readable\<close> and \<^verbatim>\<open>seekable\<close> only observe it.  The remaining fields are what the
  length discovery \<^verbatim>\<open>_flen\<close> probes with \<^verbatim>\<open>hasattr\<close>: \<open>None\<close> means that the attribute
  is absent, \<open>Some r\<close> that it is present and that using it gives \<open>r\<close>.
\<close>

record 'f io_ops =
  io_seek :: "'f \<Rightarrow> int \<Rightarrow> int \<Rightarrow> (pyerr + int) \<times> 'f"
  io_tell :: "'f \<Rightarrow> pyerr + int"
  io_read :: "'f \<Rightarrow> int \<Rightarrow> (pyerr + bytes) \<times> 'f"
  io_readable :: "'f \<Rightarrow> pyerr + bool"
  io_seekable :: "'f \<Rightarrow> pyerr + bool"
  io_close :: "'f \<Rightarrow> (pyerr + unit) \<times> 'f"
  io_dunder_len :: "'f \<Rightarrow> (pyerr + int) option"
  io_len :: "'f \<Rightarrow> (pyerr + int) option"
  io_getbuffer_len :: "'f \<Rightarrow> (pyerr + int) option"
  io_fileno :: "'f \<Rightarrow> (pyerr + int) option"
  io_mode :: "'f \<Rightarrow> string option"
  io_has_seek_tell :: "'f \<Rightarrow> bool"
  os_fstat_size :: "int \<Rightarrow> pyerr + int"

subsection \<open>Length discovery: \<^verbatim>\<open>_flen\<close>\<close>

definition flen_seek_fallback :: "'f io_ops \<Rightarrow> 'f \<Rightarrow> (pyerr + int option) \<times> 'f" where
  "flen_seek_fallback io f =
     (case io_tell io f of
        Inl e \<Rightarrow> (if is_OSError e then Inr None else Inl e, f)
      | Inr offset \<Rightarrow>
          (case io_seek io f 0 SEEK_END of
             (Inl e, f1) \<Rightarrow> (if is_OSError e then Inr None else Inl e, f1)
           | (Inr len, f1) \<Rightarrow>
               (case io_seek io f1 offset SEEK_SET of
                  (Inl e, f2) \<Rightarrow> (if is_OSError e then Inr None else Inl e, f2)
                | (Inr _, f2) \<Rightarrow> (Inr (Some len), f2))))"

definition flen_fileno :: "'f io_ops \<Rightarrow> 'f \<Rightarrow> pyerr + int \<Rightarrow> pyerr + int option" where
  "flen_fileno io f r =
     (case r of
        Inl e \<Rightarrow> (if is_OSError e then Inr None else Inl e)
      | Inr fileno \<Rightarrow>
          (case io_mode io f of
             Some m \<Rightarrow>
               (if CHR ''b'' \<notin> set m then Inr None
                else map_sum id Some (os_fstat_size io fileno))
           | None \<Rightarrow> map_sum id Some (os_fstat_size io fileno)))"

definition flen :: "'f io_ops \<Rightarrow> 'f \<Rightarrow> (pyerr + int option) \<times> 'f" where
  "flen io f =
     (case io_dunder_len io f of
        Some r \<Rightarrow> (map_sum id Some r, f)
      | None \<Rightarrow>
     (case io_len io f of
        Some r \<Rightarrow> (map_sum id Some r, f)
      | None \<Rightarrow>
     (case io_getbuffer_len io f of
        Some r \<Rightarrow> (map_sum id Some r, f)
      | None \<Rightarrow>
     (case io_fileno io f of
        Some r \<Rightarrow> (flen_fileno io f r, f)
      | None \<Rightarrow>
     (if io_has_seek_tell io f then flen_seek_fallback io f
      else (Inr None, f))))))"

subsection \<open>The stream object\<close>

record 'f stream =
  inited :: bool
  pos :: int
  file_index :: nat
  file_pos :: int
  closed :: bool
  name :: string
  files :: "'f list"
  lengths :: "int option list option"

text \<open>\<^verbatim>\<open>__init__\<close>: the object starts closed, with no length table.\<close>

definition init :: "'f list \<Rightarrow> string \<Rightarrow> 'f stream" where
  "init fs nm =
     \<lparr>inited = False, pos = 0, file_index = 0, file_pos = 0, closed = True,
      name = nm, files = fs, lengths = None\<rparr>"

text \<open>\<^verbatim>\<open>_call_on_all_files\<close>: \<^verbatim>\<open>asyncio.gather\<close> runs the call on every file, in the
  order of the tuple here, does not cancel the others when one raises, and re-raises the
  first exception.\<close>

fun call_on_all_files ::
  "('f \<Rightarrow> (pyerr + 'a) \<times> 'f) \<Rightarrow> 'f list \<Rightarrow> (pyerr + 'a list) \<times> 'f list" where
  "call_on_all_files g [] = (Inr [], [])"
| "call_on_all_files g (f # fs) =
     (case g f of (r, f') \<Rightarrow>
        (case call_on_all_files g fs of (rs, fs') \<Rightarrow>
           ((case r of
               Inl e \<Rightarrow> Inl e
             | Inr v \<Rightarrow> (case rs of Inl e \<Rightarrow> Inl e | Inr vs \<Rightarrow> Inr (v # vs))),
            f' # fs')))"

fun first_none :: "int option list \<Rightarrow> nat \<Rightarrow> nat option" where
  "first_none [] i = None"
| "first_none (l # ls) i = (if l = None then Some i else first_none ls (Suc i))"

text \<open>\<^verbatim>\<open>__aenter__\<close>: the length table is assigned before it is checked for \<^verbatim>\<open>None\<close>.\<close>

definition aenter :: "'f io_ops \<Rightarrow> 'f stream \<Rightarrow> (pyerr + unit) \<times> 'f stream" where
  "aenter io s =
     (if \<not> inited s then
        (case call_on_all_files (flen io) (files s) of
           (Inl e, fs') \<Rightarrow> (Inl e, s\<lparr>files := fs'\<rparr>)
         | (Inr ls, fs') \<Rightarrow>
             (let s1 = s\<lparr>files := fs', lengths := Some ls\<rparr> in
              case first_none ls 0 of
                Some i \<Rightarrow> (Inl (ValueError_unknown_length i), s1)
              | None \<Rightarrow> (Inr (), s1\<lparr>closed := False, inited := True\<rparr>)))
      else (Inr (), s))"

text \<open>\<^verbatim>\<open>create\<close>: construct, then enter.\<close>

definition create :: "'f io_ops \<Rightarrow> 'f list \<Rightarrow> string \<Rightarrow> (pyerr + unit) \<times> 'f stream" where
  "create io fs nm = aenter io (init fs nm)"

text \<open>\<^verbatim>\<open>__len__\<close> is \<^verbatim>\<open>sum(self.lengths)\<close>; the builtin \<^verbatim>\<open>len\<close> then refuses a negative
  result and one above \<^verbatim>\<open>sys.maxsize\<close>.\<close>

definition dunder_len :: "'f stream \<Rightarrow> pyerr + int" where
  "dunder_len s =
     (case lengths s of
        None \<Rightarrow> Inl TypeError
      | Some ls \<Rightarrow>
          (if list_all (\<lambda>l. l \<noteq> None) ls then Inr (sum_list (map the ls))
           else Inl TypeError))"

definition py_len :: "'f stream \<Rightarrow> pyerr + int" where
  "py_len s =
     (case dunder_len s of
        Inl e \<Rightarrow> Inl e
      | Inr n \<Rightarrow>
          (if n < 0 then Inl (ValueError negative_len_msg)
           else if n > sys_maxsize then Inl OverflowError
           else Inr n))"

text \<open>\<^verbatim>\<open>self.lengths[i]\<close>, used as a number.\<close>

definition length_at :: "'f stream \<Rightarrow> nat \<Rightarrow> pyerr + int" where
  "length_at s i =
     (case lengths s of
        None \<Rightarrow> Inl TypeError
      | Some ls \<Rightarrow>
          (if i < length ls then
             (case ls ! i of None \<Rightarrow> Inl TypeError | Some l \<Rightarrow> Inr l)
           else Inl IndexError))"

text \<open>The property \<^verbatim>\<open>_file_length\<close>.\<close>

definition file_length :: "'f stream \<Rightarrow> pyerr + int" where
  "file_length s = length_at s (file_index s)"

text \<open>The loop of \<^verbatim>\<open>_recalc_file\<close> ("find file on offset"), on the local \<^verbatim>\<open>pos\<close>.\<close>

function find_file :: "'f stream \<Rightarrow> int \<Rightarrow> (pyerr + int) \<times> 'f stream" where
  "find_file s p =
     (case length_at s (file_index s) of
        Inl e \<Rightarrow> (Inl e, s)
      | Inr l \<Rightarrow>
          (if p \<ge> l \<and> file_index s + 1 < length (files s)
           then find_file (s\<lparr>file_index := file_index s + 1\<rparr>) (p - l)
           else (Inr p, s)))"
  by pat_completeness auto
termination
  by (relation "measure (\<lambda>(s, p). length (files s) - file_index s)") auto

definition recalc_file :: "'f io_ops \<Rightarrow> 'f stream \<Rightarrow> (pyerr + unit) \<times> 'f stream" where
  "recalc_file io s =
     (case find_file (s\<lparr>file_index := 0, file_pos := 0\<rparr>) (pos s) of
        (Inl e, s1) \<Rightarrow> (Inl e, s1)
      | (Inr p, s1) \<Rightarrow>
          (if file_index s1 < length (files s1) then
             (case io_seek io (files s1 ! file_index s1) p SEEK_SET of
                (Inl e, f') \<Rightarrow> (Inl e, s1\<lparr>files := (files s1)[file_index s1 := f']\<rparr>)
              | (Inr fpos, f') \<Rightarrow>
                  (let s2 = s1\<lparr>files := (files s1)[file_index s1 := f']\<rparr>;
                       s3 = (if fpos \<noteq> p then s2\<lparr>pos := pos s2 - (p - fpos)\<rparr> else s2)
                   in (Inr (), s3\<lparr>file_pos := fpos\<rparr>)))
           else (Inl IndexError, s1)))"

definition close :: "'f io_ops \<Rightarrow> 'f stream \<Rightarrow> (pyerr + unit) \<times> 'f stream" where
  "close io s =
     (case call_on_all_files (io_close io) (files s) of
        (Inl e, fs') \<Rightarrow> (Inl e, s\<lparr>files := fs'\<rparr>)
      | (Inr _, fs') \<Rightarrow> (Inr (), s\<lparr>files := fs', closed := True\<rparr>))"

definition readable :: "'f io_ops \<Rightarrow> 'f stream \<Rightarrow> pyerr + bool" where
  "readable io s =
     (if closed s then Inr False
      else map_sum id (list_all id)
             (fst (call_on_all_files (\<lambda>f. (io_readable io f, f)) (files s))))"

definition seekable :: "'f io_ops \<Rightarrow> 'f stream \<Rightarrow> pyerr + bool" where
  "seekable io s =
     map_sum id (list_all id)
       (fst (call_on_all_files (\<lambda>f. (io_seekable io f, f)) (files s)))"

definition tell :: "'f stream \<Rightarrow> pyerr + int" where
  "tell s = Inr (pos s)"

definition read1 :: "'f io_ops \<Rightarrow> 'f stream \<Rightarrow> int \<Rightarrow> (pyerr + bytes) \<times> 'f stream" where
  "read1 io s amount =
     (if closed s then (Inl (ValueError closed_msg), s)
      else
        (case readable io s of
           Inl e \<Rightarrow> (Inl e, s)
         | Inr False \<Rightarrow> (Inl UnsupportedOperation, s)
         | Inr True \<Rightarrow>
             (let fpos = file_pos s in
              if file_index s < length (files s) then
                (case io_read io (files s ! file_index s) amount of
                   (Inl e, f') \<Rightarrow> (Inl e, s\<lparr>files := (files s)[file_index s := f']\<rparr>)
                 | (Inr val, f') \<Rightarrow>
                     (let s1 = s\<lparr>files := (files s)[file_index s := f']\<rparr> in
                      case file_length s1 of
                        Inl e \<Rightarrow> (Inl e, s1)
                      | Inr fl \<Rightarrow>
                          (let max_len = max (fl - fpos) 0;
                               val' = (if int (length val) > max_len
                                       then take (nat max_len) val else val)
                           in case io_tell io (files s1 ! file_index s1) of
                                Inl e \<Rightarrow> (Inl e, s1)
                              | Inr t \<Rightarrow>
                                  (let s2 = s1\<lparr>file_pos := t\<rparr>;
                                       s3 = s2\<lparr>pos := pos s2 + int (length val')\<rparr>
                                   in case recalc_file io s3 of
                                        (Inl e, s4) \<Rightarrow> (Inl e, s4)
                                      | (Inr _, s4) \<Rightarrow> (Inr val', s4)))))
              else (Inl IndexError, s))))"

text \<open>\<^verbatim>\<open>buffer[data_len:data_len+len(data)] = data\<close> on a \<^verbatim>\<open>bytearray\<close>.\<close>

definition slice_assign :: "bytes \<Rightarrow> nat \<Rightarrow> bytes \<Rightarrow> bytes" where
  "slice_assign buffer i data = take i buffer @ data @ drop (i + length data) buffer"

function readinto_loop ::
  "'f io_ops \<Rightarrow> nat \<Rightarrow> 'f stream \<Rightarrow> bytes \<Rightarrow> nat \<Rightarrow> (pyerr + nat) \<times> bytes \<times> 'f stream" where
  "readinto_loop io buf_len s buffer data_len =
     (if data_len < buf_len then
        (case read1 io s (int buf_len - int data_len) of
           (Inl e, s') \<Rightarrow> (Inl e, buffer, s')
         | (Inr data, s') \<Rightarrow>
             (if data = [] then (Inr data_len, buffer, s')
              else readinto_loop io buf_len s' (slice_assign buffer data_len data)
                     (data_len + length data)))
      else (Inr data_len, buffer, s))"
  by pat_completeness auto
termination
  by (relation "measure (\<lambda>(io, buf_len, s, buffer, data_len). buf_len - data_len)")
     (auto simp: neq_Nil_conv)

definition readinto :: "'f io_ops \<Rightarrow> 'f stream \<Rightarrow> bytes \<Rightarrow> (pyerr + nat) \<times> bytes \<times> 'f stream" where
  "readinto io s buffer = readinto_loop io (length buffer) s buffer 0"

text \<open>\<^verbatim>\<open>read\<close>: \<^verbatim>\<open>bytearray(amount)\<close> raises \<^verbatim>\<open>ValueError\<close> on a negative count.\<close>

definition read :: "'f io_ops \<Rightarrow> 'f stream \<Rightarrow> int \<Rightarrow> (pyerr + bytes) \<times> 'f stream" where
  "read io s amount =
     (case py_len s of
        Inl e \<Rightarrow> (Inl e, s)
      | Inr n \<Rightarrow>
          (let amount' = (if amount < 0 \<or> amount > n - pos s then n - pos s else amount) in
           if amount' < 0 then (Inl (ValueError negative_count_msg), s)
           else
             (case readinto io s (replicate (nat amount') (CHR 0x00)) of
                (Inl e, ba, s') \<Rightarrow> (Inl e, s')
              | (Inr _, ba, s') \<Rightarrow> (Inr ba, s'))))"

definition seek_tail :: "'f io_ops \<Rightarrow> 'f stream \<Rightarrow> int \<Rightarrow> (pyerr + int) \<times> 'f stream" where
  "seek_tail io s offset =
     (case recalc_file io (s\<lparr>pos := pos s + offset\<rparr>) of
        (Inl e, s') \<Rightarrow> (Inl e, s')
      | (Inr _, s') \<Rightarrow> (Inr (pos s'), s'))"

definition seek :: "'f io_ops \<Rightarrow> 'f stream \<Rightarrow> int \<Rightarrow> int \<Rightarrow> (pyerr + int) \<times> 'f stream" where
  "seek io s offset whence =
     (if closed s then (Inl (ValueError closed_msg), s)
      else
        (case seekable io s of
           Inl e \<Rightarrow> (Inl e, s)
         | Inr False \<Rightarrow> (Inl UnsupportedOperation, s)
         | Inr True \<Rightarrow>
             (if whence = SEEK_SET then seek_tail io (s\<lparr>pos := 0\<rparr>) offset
              else if whence = SEEK_CUR then seek_tail io s offset
              else if whence = SEEK_END then
                (case py_len s of
                   Inl e \<Rightarrow> (Inl e, s)
                 | Inr n \<Rightarrow> seek_tail io (s\<lparr>pos := n\<rparr>) offset)
              else (Inl (ValueError whence_msg), s))))"

subsection \<open>Callers: sequences of operations\<close>

text \<open>A caller that issues seeks and chunk reads one after the other, going on after an
  exception; and one that issues chunk reads and collects what they returned, stopping at
  the first exception.\<close>

datatype op = Seek int int | Read1 int

fun run_op :: "'f io_ops \<Rightarrow> op \<Rightarrow> 'f stream \<Rightarrow> 'f stream" where
  "run_op io (Seek offset whence) s = snd (seek io s offset whence)"
| "run_op io (Read1 amount) s = snd (read1 io s amount)"

fun run_ops :: "'f io_ops \<Rightarrow> op list \<Rightarrow> 'f stream \<Rightarrow> 'f stream" where
  "run_ops io [] s = s"
| "run_ops io (x # xs) s = run_ops io xs (run_op io x s)"

fun read_chunks :: "'f io_ops \<Rightarrow> 'f stream \<Rightarrow> int list \<Rightarrow> (pyerr + bytes list) \<times> 'f stream" where
  "read_chunks io s [] = (Inr [], s)"
| "read_chunks io s (a # as) =
     (case read1 io s a of
        (Inl e, s') \<Rightarrow> (Inl e, s')
      | (Inr d, s') \<Rightarrow>
          (case read_chunks io s' as of
             (Inl e, s'') \<Rightarrow> (Inl e, s'')
           | (Inr ds, s'') \<Rightarrow> (Inr (d # ds), s'')))"

subsection \<open>An in-memory source\<close>

text \<open>
  The sources of the repository's tests are \<^verbatim>\<open>io.BytesIO\<close> objects.  The model follows
  CPython's implementation of that class: a buffer, a position that may lie beyond the
  end of the buffer, and a closed flag.  \<^verbatim>\<open>seek\<close> and \<^verbatim>\<open>read\<close> first convert their integer
  arguments to machine integers and raise \<^verbatim>\<open>OverflowError\<close> when one does not fit; then
  every method raises \<^verbatim>\<open>ValueError\<close> on a closed object.  The object has \<^verbatim>\<open>getbuffer\<close> and
  neither \<^verbatim>\<open>__len__\<close> nor \<^verbatim>\<open>len\<close>, so \<^verbatim>\<open>_flen\<close> takes the length of the buffer.
\<close>

text \<open>Decimal digits, for the messages that quote a number.\<close>

fun show_nat :: "nat \<Rightarrow> string" where
  "show_nat n =
     (if n < 10 then [char_of (48 + n)]
      else show_nat (n div 10) @ [char_of (48 + n mod 10)])"

definition show_int :: "int \<Rightarrow> string" where
  "show_int i = (if i < 0 then CHR ''-'' # show_nat (nat (- i)) else show_nat (nat i))"

text \<open>The ranges of \<^verbatim>\<open>Py_ssize_t\<close> and of a C \<^verbatim>\<open>int\<close>.\<close>

definition ssize_ok :: "int \<Rightarrow> bool" where
  "ssize_ok n \<longleftrightarrow> - sys_maxsize - 1 \<le> n \<and> n \<le> sys_maxsize"

definition c_int_ok :: "int \<Rightarrow> bool" where
  "c_int_ok n \<longleftrightarrow> - (2 ^ 31) \<le> n \<and> n < 2 ^ 31"

record bytesio =
  buf :: bytes
  bpos :: nat
  bclosed :: bool

definition BytesIO :: "bytes \<Rightarrow> bytesio" where
  "BytesIO b = \<lparr>buf = b, bpos = 0, bclosed = False\<rparr>"

definition negative_seek_msg :: "int \<Rightarrow> string" where
  "negative_seek_msg p = ''negative seek value '' @ show_int p"

definition invalid_whence_msg :: "int \<Rightarrow> string" where
  "invalid_whence_msg w = ''invalid whence ('' @ show_int w @ '', should be 0, 1 or 2)''"

definition bytesio_seek :: "bytesio \<Rightarrow> int \<Rightarrow> int \<Rightarrow> (pyerr + int) \<times> bytesio" where
  "bytesio_seek f p whence =
     (if \<not> ssize_ok p \<or> \<not> c_int_ok whence then (Inl OverflowError, f)
      else if bclosed f then (Inl (ValueError closed_msg), f)
      else if p < 0 \<and> whence = SEEK_SET then (Inl (ValueError (negative_seek_msg p)), f)
      else if whence = SEEK_CUR then
        (if p > sys_maxsize - int (bpos f) then (Inl OverflowError, f)
         else (let q = max 0 (p + int (bpos f)) in (Inr q, f\<lparr>bpos := nat q\<rparr>)))
      else if whence = SEEK_END then
        (if p > sys_maxsize - int (length (buf f)) then (Inl OverflowError, f)
         else (let q = max 0 (p + int (length (buf f))) in (Inr q, f\<lparr>bpos := nat q\<rparr>)))
      else if whence \<noteq> SEEK_SET then (Inl (ValueError (invalid_whence_msg whence)), f)
      else (let q = max 0 p in (Inr q, f\<lparr>bpos := nat q\<rparr>)))"

definition bytesio_tell :: "bytesio \<Rightarrow> pyerr + int" where
  "bytesio_tell f = (if bclosed f then Inl (ValueError closed_msg) else Inr (int (bpos f)))"

definition bytesio_read :: "bytesio \<Rightarrow> int \<Rightarrow> (pyerr + bytes) \<times> bytesio" where
  "bytesio_read f n =
     (if \<not> ssize_ok n then (Inl OverflowError, f)
      else if bclosed f then (Inl (ValueError closed_msg), f)
      else
        (let avail = length (buf f) - bpos f;
             k = (if n < 0 \<or> n > int avail then avail else nat n)
         in (Inr (take k (drop (bpos f) (buf f))), f\<lparr>bpos := bpos f + k\<rparr>)))"

definition bytesio_flag :: "bytesio \<Rightarrow> pyerr + bool" where
  "bytesio_flag f = (if bclosed f then Inl (ValueError closed_msg) else Inr True)"

definition bytesio_close :: "bytesio \<Rightarrow> (pyerr + unit) \<times> bytesio" where
  "bytesio_close f = (Inr (), f\<lparr>bclosed := True\<rparr>)"

definition bytesio_getbuffer_len :: "bytesio \<Rightarrow> (pyerr + int) option" where
  "bytesio_getbuffer_len f =
     Some (if bclosed f then Inl (ValueError closed_msg) else Inr (int (length (buf f))))"

definition bytesio_ops :: "bytesio io_ops" where
  "bytesio_ops =
     \<lparr>io_seek = bytesio_seek, io_tell = bytesio_tell, io_read = bytesio_read,
      io_readable = bytesio_flag, io_seekable = bytesio_flag, io_close = bytesio_close,
      io_dunder_len = (\<lambda>f. None), io_len = (\<lambda>f. None),
      io_getbuffer_len = bytesio_getbuffer_len,
      io_fileno = (\<lambda>f. Some (Inl UnsupportedOperation)),
      io_mode = (\<lambda>f. None), io_has_seek_tell = (\<lambda>f. True),
      os_fstat_size = (\<lambda>fd. Inl OSError)\<rparr>"

text \<open>What holds of every open \<^verbatim>\<open>io.BytesIO\<close> object: its buffer size and its position are
  \<^verbatim>\<open>Py_ssize_t\<close> values.\<close>

definition bytesio_ok :: "bytesio \<Rightarrow> bool" where
  "bytesio_ok f \<longleftrightarrow>
     \<not> bclosed f \<and> int (length (buf f)) \<le> sys_maxsize \<and> int (bpos f) \<le> sys_maxsize"

text \<open>A source whose native seek stops at the end of its data, as the comment
  "handle last file smaller than pos" in \<^verbatim>\<open>_recalc_file\<close> expects of a short source.\<close>

definition clamping_seek :: "bytesio \<Rightarrow> int \<Rightarrow> int \<Rightarrow> (pyerr + int) \<times> bytesio" where
  "clamping_seek f p whence =
     (case bytesio_seek f p whence of
        (Inl e, f') \<Rightarrow> (Inl e, f')
      | (Inr q, f') \<Rightarrow>
          (let q' = min q (int (length (buf f))) in (Inr q', f'\<lparr>bpos := nat q'\<rparr>)))"

definition clamping_ops :: "bytesio io_ops" where
  "clamping_ops = bytesio_ops\<lparr>io_seek := clamping_seek\<rparr>"

subsection \<open>Streams over in-memory sources\<close>

text \<open>The logical content, and the streams the properties below are about: open, with at
  least one source, each source an open in-memory object holding exactly as many bytes
  as the length table declares.\<close>

definition content :: "bytesio stream \<Rightarrow> bytes" where
  "content s = concat (map buf (files s))"

definition declared :: "bytesio stream \<Rightarrow> int list" where
  "declared s = map (\<lambda>f. int (length (buf f))) (files s)"

definition open_ok :: "bytesio stream \<Rightarrow> bool" where
  "open_ok s \<longleftrightarrow>
     \<not> closed s \<and> files s \<noteq> [] \<and> list_all bytesio_ok (files s) \<and>
     lengths s = Some (map Some (declared s))"

text \<open>The walk of \<^verbatim>\<open>_recalc_file\<close> over a plain list of lengths, from index \<open>i\<close>.\<close>

fun locate :: "int list \<Rightarrow> int \<Rightarrow> nat \<Rightarrow> int \<times> nat" where
  "locate [] p i = (p, i)"
| "locate [l] p i = (p, i)"
| "locate (l # l' # ls) p i =
     (if p \<ge> l then locate (l' # ls) (p - l) (Suc i) else (p, i))"

text \<open>A stream is in step when the cached active index and offset are the ones the walk
  finds for the logical cursor and the active source stands at that offset.  It is the
  state that every returning seek and every returning chunk read leave behind, and the
  state of a freshly opened stream whose first source is not empty.\<close>

definition in_step :: "bytesio stream \<Rightarrow> bool" where
  "in_step s \<longleftrightarrow>
     open_ok s \<and> 0 \<le> pos s \<and>
     locate (declared s) (pos s) 0 = (file_pos s, file_index s) \<and>
     int (bpos (files s ! file_index s)) = file_pos s"

text \<open>
  What a chunk read is to return, in the words of the specification: at most the amount
  asked for, from a single source, never spanning two.  \<open>source_rest\<close> is the number of
  bytes between the logical position \<open>p\<close> and the end of the source that owns it,
  \<open>chunk_size\<close> the size of a chunk asked with amount \<open>a\<close> there (a negative amount asks
  for everything), \<open>chunk_sizes\<close> the sizes of successive chunks, and a split \<open>fits\<close>
  when no chunk asks for more than is left in the source it starts in.
\<close>

definition source_rest :: "int list \<Rightarrow> int \<Rightarrow> nat" where
  "source_rest ls p = (case locate ls p 0 of (q, j) \<Rightarrow> nat (ls ! j - q))"

definition chunk_size :: "int list \<Rightarrow> int \<Rightarrow> int \<Rightarrow> nat" where
  "chunk_size ls p a =
     (if a < 0 \<or> int (source_rest ls p) < a then source_rest ls p else nat a)"



text \<open>The three sources of the repository's test.\<close>

definition test_files :: "bytesio list" where
  "test_files = [BytesIO ''test'', BytesIO ('' KURWA'' @ [CHR 0x0A]), BytesIO ''kek'']"

definition test_stream :: "bytesio stream" where
  "test_stream = snd (create bytesio_ops test_files [])"

text \<open>A stream whose only source has grown after initialization: the table declares two
  bytes, the source holds four.\<close>

definition grown_stream :: "bytesio stream" where
  "grown_stream = (snd (create bytesio_ops [BytesIO ''te''] []))\<lparr>files := [BytesIO ''test'']\<rparr>"

text \<open>That stream after a seek to 1 and then a seek to -1, which the source refuses.\<close>

definition stale_stream :: "bytesio stream" where
  "stale_stream =
     snd (seek bytesio_ops (snd (seek bytesio_ops grown_stream 1 SEEK_SET)) (- 1) SEEK_SET)"

text \<open>Sources that answer \<^verbatim>\<open>seekable()\<close> with \<^verbatim>\<open>True\<close> whether open or closed, as a
  class that defines \<^verbatim>\<open>def seekable(self): return True\<close> does.\<close>

definition constant_seekable_ops :: "bytesio io_ops" where
  "constant_seekable_ops = bytesio_ops\<lparr>io_seekable := (\<lambda>f. Inr True)\<rparr>"

text \<open>A stream with an empty source between two others.\<close>

definition gap_stream :: "bytesio stream" where
  "gap_stream = snd (create bytesio_ops [BytesIO ''ab'', BytesIO [], BytesIO ''c''] [])"

text \<open>A freshly opened stream whose first source is empty.\<close>

definition empty_first_stream :: "bytesio stream" where
  "empty_first_stream = snd (create bytesio_ops [BytesIO [], BytesIO ''abc''] [])"

section \<open>Verified properties\<close>

subsection \<open>What the resync leaves alone\<close>

declare find_file.simps [simp del]

lemma find_file_frame:
  "find_file s p = (r, s') \<Longrightarrow> s' = s\<lparr>file_index := file_index s'\<rparr>"
proof (induction s p arbitrary: r s' rule: find_file.induct)
  case (1 s p)
  show ?case
  proof (cases "length_at s (file_index s)")
    case (Inl e)
    with "1.prems" show ?thesis by (auto simp add: find_file.simps [of s p])
  next
    case (Inr l)
    show ?thesis
    proof (cases "p \<ge> l \<and> file_index s + 1 < length (files s)")
      case True
      with Inr "1.prems" have "find_file (s\<lparr>file_index := file_index s + 1\<rparr>) (p - l) = (r, s')"
        by (simp add: find_file.simps [of s p])
      from "1.IH" [OF Inr True this] show ?thesis by simp
    next
      case False
      with Inr "1.prems" show ?thesis by (auto simp add: find_file.simps [of s p])
    qed
  qed
qed

lemma find_file_lengths: "find_file s p = (r, s') \<Longrightarrow> lengths s' = lengths s"
  by (drule find_file_frame) (erule ssubst, simp)

lemma find_file_pos: "find_file s p = (r, s') \<Longrightarrow> pos s' = pos s"
  by (drule find_file_frame) (erule ssubst, simp)

lemma find_file_files: "find_file s p = (r, s') \<Longrightarrow> files s' = files s"
  by (drule find_file_frame) (erule ssubst, simp)

lemma find_file_closed: "find_file s p = (r, s') \<Longrightarrow> closed s' = closed s"
  by (drule find_file_frame) (erule ssubst, simp)

lemma recalc_file_lengths: "recalc_file io s = (r, s') \<Longrightarrow> lengths s' = lengths s"
  by (auto simp: recalc_file_def Let_def split: prod.splits sum.splits if_splits
           dest!: find_file_lengths)

lemma seek_tail_lengths: "seek_tail io s offset = (r, s') \<Longrightarrow> lengths s' = lengths s"
  by (auto simp: seek_tail_def split: prod.splits sum.splits dest!: recalc_file_lengths)

lemma seek_lengths: "seek io s offset whence = (r, s') \<Longrightarrow> lengths s' = lengths s"
  by (auto simp: seek_def split: prod.splits sum.splits if_splits bool.splits
           dest!: seek_tail_lengths)

lemma read1_lengths: "read1 io s amount = (r, s') \<Longrightarrow> lengths s' = lengths s"
  by (auto simp: read1_def Let_def split: prod.splits sum.splits if_splits bool.splits
           dest!: recalc_file_lengths)

lemma run_op_lengths: "lengths (run_op io x s) = lengths s"
  by (cases x) (auto intro: seek_lengths read1_lengths prod.collapse [symmetric])

lemma run_ops_lengths: "lengths (run_ops io xs s) = lengths s"
  by (induction xs arbitrary: s) (simp_all add: run_op_lengths)

subsection \<open>The clamp of a chunk read\<close>

text \<open>
  Whatever the active source's native read returns, a chunk read that returns hands out
  at most (declared length of the active source) minus (cached active offset before
  the read) bytes, none when that difference is negative.  The bound is about the cached
  offset \<^verbatim>\<open>_file_pos\<close>, not about where the source really stands.
\<close>

lemma read1_clamped:
  assumes "read1 io s amount = (Inr val, s')"
  shows "\<exists>fl. file_length s = Inr fl \<and> int (length val) \<le> max (fl - file_pos s) 0 \<and>
           (val \<noteq> [] \<longrightarrow> file_pos s + int (length val) \<le> fl)"
  using assms
  by (auto simp: read1_def Let_def file_length_def length_at_def
           split: prod.splits sum.splits if_splits bool.splits option.splits)

lemma read1_clamped_grown_source:
  "file_pos grown_stream = 0 \<and> file_length grown_stream = Inr 2 \<and>
   fst (read1 bytesio_ops grown_stream (- 1)) = Inr ''te''"
  by code_simp

text \<open>
  Claim C4 at its failing input.  The source holds \<open>test\<close> and is declared as 2 bytes.
  After a seek to 1, a seek to -1 is refused by the source; \<^verbatim>\<open>_recalc_file\<close> has by then
  reset the cached offset to 0, while the source still stands at 1.  The next chunk read
  clamps to 2 - 0 bytes and returns \<open>es\<close>, the source bytes at offsets 1 and 2: two bytes
  where declared length minus the source's offset is 1, the second one beyond the
  declared length.
\<close>

theorem read1_stale_offset:
  "fst (seek bytesio_ops (snd (seek bytesio_ops grown_stream 1 SEEK_SET)) (- 1) SEEK_SET)
     = Inl (ValueError ''negative seek value -1'') \<and>
   file_length stale_stream = Inr 2 \<and> file_pos stale_stream = 0 \<and>
   bytesio_tell (files stale_stream ! file_index stale_stream) = Inr 1 \<and>
   fst (read1 bytesio_ops stale_stream (- 1)) = Inr ''es'' \<and>
   ''es'' = take 2 (drop 1 (buf (files stale_stream ! file_index stale_stream)))"
  by code_simp

subsection \<open>An unknown seek origin\<close>

text \<open>
  Claim C9.  On an open stream whose sources all report themselves seekable, a seek with
  a whence other than 0, 1 and 2 raises the \<^verbatim>\<open>ValueError\<close> about whence and returns the
  state it was given: cursor, active index, active offset and sources are unchanged.
\<close>

theorem seek_invalid_whence:
  assumes "\<not> closed s" and "seekable io s = Inr True"
    and "whence \<noteq> SEEK_SET" and "whence \<noteq> SEEK_CUR" and "whence \<noteq> SEEK_END"
  shows "seek io s offset whence = (Inl (ValueError whence_msg), s)"
  using assms by (simp add: seek_def)

theorem seek_invalid_whence_witness:
  "\<not> closed test_stream \<and> seekable bytesio_ops test_stream = Inr True \<and>
   seek bytesio_ops test_stream 5 7 = (Inl (ValueError whence_msg), test_stream)"
proof -
  have a: "\<not> closed test_stream" by code_simp
  have b: "seekable bytesio_ops test_stream = Inr True" by code_simp
  have c: "(7::int) \<noteq> SEEK_SET" "(7::int) \<noteq> SEEK_CUR" "(7::int) \<noteq> SEEK_END"
    by (simp_all add: SEEK_SET_def SEEK_CUR_def SEEK_END_def)
  from seek_invalid_whence [OF a b c] a b show ?thesis by simp
qed

subsection \<open>Reading the rest from beyond the end\<close>

text \<open>
  Claim C10.  When the cursor is beyond the total length, \<^verbatim>\<open>read\<close> computes a negative
  amount, whatever amount was asked for, and \<^verbatim>\<open>bytearray\<close> raises \<^verbatim>\<open>ValueError\<close>; no
  bytes are returned.  A seek to 16 on the 14-byte test stream reaches such a cursor.
\<close>

theorem read_past_end_raises:
  assumes "py_len s = Inr n" and "n < pos s"
  shows "read io s amount = (Inl (ValueError negative_count_msg), s)"
  using assms by (auto simp add: read_def Let_def)

theorem read_past_end_raises_witness:
  "py_len (snd (seek bytesio_ops test_stream 16 SEEK_SET)) = Inr 14 \<and>
   14 < pos (snd (seek bytesio_ops test_stream 16 SEEK_SET)) \<and>
   fst (read bytesio_ops (snd (seek bytesio_ops test_stream 16 SEEK_SET)) (- 1))
     = Inl (ValueError negative_count_msg)"
proof -
  have a: "py_len (snd (seek bytesio_ops test_stream 16 SEEK_SET)) = Inr 14" by code_simp
  have b: "14 < pos (snd (seek bytesio_ops test_stream 16 SEEK_SET))" by code_simp
  from read_past_end_raises [OF a b] a b show ?thesis by simp
qed

subsection \<open>The resync on a short source\<close>

text \<open>
  Claim C5.  When the walk over the length table stops with candidate offset \<open>cand\<close>, and
  the native seek of the source found there reports a position \<open>fpos\<close> other than \<open>cand\<close>,
  the resync succeeds, lowers the logical cursor by exactly \<open>cand - fpos\<close> and caches
  \<open>fpos\<close> as the active offset.
\<close>

theorem recalc_file_short_source:
  assumes walk: "find_file (s\<lparr>file_index := 0, file_pos := 0\<rparr>) (pos s) = (Inr cand, s1)"
    and inside: "file_index s1 < length (files s1)"
    and native: "io_seek io (files s1 ! file_index s1) cand SEEK_SET = (Inr fpos, f')"
    and short: "fpos \<noteq> cand"
  shows "\<exists>s'. recalc_file io s = (Inr (), s') \<and> pos s' = pos s - (cand - fpos) \<and>
           file_pos s' = fpos \<and> file_index s' = file_index s1"
proof -
  have p: "pos s1 = pos s" using find_file_pos [OF walk] by simp
  have "recalc_file io s =
    (Inr (), s1\<lparr>files := (files s1)[file_index s1 := f'],
                 pos := pos s1 - (cand - fpos), file_pos := fpos\<rparr>)"
    unfolding recalc_file_def walk using inside native short by (simp add: Let_def)
  with p show ?thesis by simp
qed

theorem recalc_file_short_source_witness:
  "fst (recalc_file clamping_ops (test_stream\<lparr>pos := 16\<rparr>)) = Inr () \<and>
   pos (snd (recalc_file clamping_ops (test_stream\<lparr>pos := 16\<rparr>))) = 16 - (5 - 3) \<and>
   file_pos (snd (recalc_file clamping_ops (test_stream\<lparr>pos := 16\<rparr>))) = 3"
proof -
  let ?s = "test_stream\<lparr>pos := 16\<rparr>"
  let ?s1 = "snd (find_file (?s\<lparr>file_index := 0, file_pos := 0\<rparr>) (pos ?s))"
  let ?f = "snd (io_seek clamping_ops (files ?s1 ! file_index ?s1) 5 SEEK_SET)"
  have "fst (find_file (?s\<lparr>file_index := 0, file_pos := 0\<rparr>) (pos ?s)) = Inr 5"
    by code_simp
  then have a: "find_file (?s\<lparr>file_index := 0, file_pos := 0\<rparr>) (pos ?s) = (Inr 5, ?s1)"
    by (simp add: prod_eq_iff)
  have b: "file_index ?s1 < length (files ?s1)" by code_simp
  have "fst (io_seek clamping_ops (files ?s1 ! file_index ?s1) 5 SEEK_SET) = Inr 3"
    by code_simp
  then have c: "io_seek clamping_ops (files ?s1 ! file_index ?s1) 5 SEEK_SET = (Inr 3, ?f)"
    by (simp add: prod_eq_iff)
  have d: "(3::int) \<noteq> 5" by simp
  from recalc_file_short_source [OF a b c d] show ?thesis by auto
qed


subsection \<open>After close\<close>

text \<open>
  Claim C6, as the code has it.  After a successful \<^verbatim>\<open>close\<close>, \<^verbatim>\<open>seek\<close> and the chunk
  read raise the \<^verbatim>\<open>ValueError\<close> for a closed file and leave the state alone, and
  \<^verbatim>\<open>readable\<close> returns \<^verbatim>\<open>False\<close> without raising.
\<close>

theorem closed_stream_operations:
  assumes "close io s = (Inr (), s')"
  shows "seek io s' offset whence = (Inl (ValueError closed_msg), s') \<and>
         read1 io s' amount = (Inl (ValueError closed_msg), s') \<and>
         readable io s' = Inr False"
proof -
  from assms have "closed s'"
    by (auto simp: close_def split: prod.splits sum.splits)
  then show ?thesis by (simp add: seek_def read1_def readable_def)
qed


theorem closed_stream_operations_witness:
  "fst (close bytesio_ops test_stream) = Inr () \<and>
   fst (seek bytesio_ops (snd (close bytesio_ops test_stream)) 0 SEEK_SET)
     = Inl (ValueError closed_msg) \<and>
   fst (read1 bytesio_ops (snd (close bytesio_ops test_stream)) 1)
     = Inl (ValueError closed_msg) \<and>
   readable bytesio_ops (snd (close bytesio_ops test_stream)) = Inr False"
proof -
  have a: "fst (close bytesio_ops test_stream) = Inr ()" by code_simp
  then have "close bytesio_ops test_stream = (Inr (), snd (close bytesio_ops test_stream))"
    by (simp add: prod_eq_iff)
  from closed_stream_operations [OF this, of 0 SEEK_SET 1] a show ?thesis by simp
qed


text \<open>
  Claim C6 as stated fails: on the closed test stream \<^verbatim>\<open>readable\<close> returns \<^verbatim>\<open>False\<close> and
  \<^verbatim>\<open>tell\<close> returns the cursor; neither raises.
\<close>

theorem closed_stream_counterexample:
  "fst (close bytesio_ops test_stream) = Inr () \<and>
   readable bytesio_ops (snd (close bytesio_ops test_stream)) = Inr False \<and>
   tell (snd (close bytesio_ops test_stream)) = Inr 0"
  by code_simp


subsection \<open>The capability queries\<close>

lemma call_on_all_files_observe:
  "fst (call_on_all_files (\<lambda>f. (q f, f)) fs) = Inr bs \<Longrightarrow> map q fs = map Inr bs"
proof (induction fs arbitrary: bs)
  case Nil
  then show ?case by simp
next
  case (Cons f fs)
  obtain rs fs' where r: "call_on_all_files (\<lambda>f. (q f, f)) fs = (rs, fs')"
    by (cases "call_on_all_files (\<lambda>f. (q f, f)) fs")
  from Cons.prems r obtain v vs where "q f = Inr v" "rs = Inr vs" "bs = v # vs"
    by (cases "q f"; cases rs) auto
  with Cons.IH [of vs] r show ?case by simp
qed

lemma gathered_all_True:
  assumes "map_sum id (list_all id) (fst (call_on_all_files (\<lambda>f. (q f, f)) fs)) = Inr True"
  shows "\<forall>f \<in> set fs. q f = Inr True"
proof -
  from assms obtain bs where
    bs: "fst (call_on_all_files (\<lambda>f. (q f, f)) fs) = Inr bs" and all: "list_all id bs"
    by (cases "fst (call_on_all_files (\<lambda>f. (q f, f)) fs)") auto
  from call_on_all_files_observe [OF bs] have m: "map q fs = map Inr bs" .
  show ?thesis
  proof
    fix f assume "f \<in> set fs"
    then have "q f \<in> set (map q fs)" by simp
    with m have "q f \<in> Inr ` set bs" by simp
    with all show "q f = Inr True" by (auto simp: list_all_iff)
  qed
qed

lemma readable_True_only_if:
  assumes "readable io s = Inr True"
  shows "\<not> closed s \<and> (\<forall>f \<in> set (files s). io_readable io f = Inr True)"
proof -
  from assms have c: "\<not> closed s" by (auto simp: readable_def split: if_splits)
  with assms have "map_sum id (list_all id)
      (fst (call_on_all_files (\<lambda>f. (io_readable io f, f)) (files s))) = Inr True"
    by (simp add: readable_def)
  from gathered_all_True [OF this] c show ?thesis by simp
qed

lemma seekable_True_only_if:
  assumes "seekable io s = Inr True"
  shows "\<forall>f \<in> set (files s). io_seekable io f = Inr True"
  using assms unfolding seekable_def by (rule gathered_all_True)

text \<open>
  Claim C7 at its failing inputs.  \<^verbatim>\<open>seekable\<close> does not look at the closed flag, unlike
  \<^verbatim>\<open>readable\<close>: on a stream that was constructed and never entered it returns \<^verbatim>\<open>True\<close>;
  on a closed stream over sources that still answer \<^verbatim>\<open>seekable()\<close> it returns \<^verbatim>\<open>True\<close>;
  on a closed stream over in-memory sources it raises their \<^verbatim>\<open>ValueError\<close> instead of
  returning \<^verbatim>\<open>False\<close>.
\<close>

theorem seekable_ignores_closed:
  "closed (init test_files []) \<and>
   seekable bytesio_ops (init test_files []) = Inr True \<and>
   closed (snd (close constant_seekable_ops test_stream)) \<and>
   seekable constant_seekable_ops (snd (close constant_seekable_ops test_stream)) = Inr True \<and>
   closed (snd (close bytesio_ops test_stream)) \<and>
   seekable bytesio_ops (snd (close bytesio_ops test_stream)) = Inl (ValueError closed_msg)"
  by code_simp

subsection \<open>The total length\<close>

lemma first_none_None: "first_none ls i = None \<Longrightarrow> None \<notin> set ls"
  by (induction ls arbitrary: i) (auto split: if_splits)

lemma dunder_len_cong: "lengths s' = lengths s \<Longrightarrow> dunder_len s' = dunder_len s"
  by (simp add: dunder_len_def)

lemma dunder_len_known: "lengths s = Some (map Some ls) \<Longrightarrow> dunder_len s = Inr (sum_list ls)"
  by (simp add: dunder_len_def list_all_iff comp_def)

lemma create_lengths:
  assumes "create io fs nm = (Inr (), s)"
  shows "\<exists>ls. fst (call_on_all_files (flen io) fs) = Inr (map Some ls) \<and>
              lengths s = Some (map Some ls)"
proof -
  obtain r fs' where g: "call_on_all_files (flen io) fs = (r, fs')"
    by (cases "call_on_all_files (flen io) fs")
  from assms g obtain ls0 where r: "r = Inr ls0" and n: "first_none ls0 0 = None"
    and s: "lengths s = Some ls0"
    by (cases r; cases "first_none (projr r) 0")
       (auto simp: create_def aenter_def init_def Let_def)
  from first_none_None [OF n] have "map Some (map the ls0) = ls0"
    by (induction ls0) auto
  with g r s have "fst (call_on_all_files (flen io) fs) = Inr (map Some (map the ls0)) \<and>
              lengths s = Some (map Some (map the ls0))" by simp
  then show ?thesis ..
qed

text \<open>
  Claim C8.  After a successful initialization the length table holds the lengths that
  \<^verbatim>\<open>_flen\<close> returned for the sources, \<^verbatim>\<open>__len__\<close> is their sum, and after any sequence of
  seeks and chunk reads, failed ones included, the table and the sum are the same.
\<close>

theorem total_length_invariant:
  assumes "create io fs nm = (Inr (), s)"
  shows "\<exists>ls. fst (call_on_all_files (flen io) fs) = Inr (map Some ls) \<and>
           lengths s = Some (map Some ls) \<and> dunder_len s = Inr (sum_list ls) \<and>
           (\<forall>xs. lengths (run_ops io xs s) = Some (map Some ls) \<and>
                 dunder_len (run_ops io xs s) = Inr (sum_list ls))"
proof -
  from create_lengths [OF assms] obtain ls where
    g: "fst (call_on_all_files (flen io) fs) = Inr (map Some ls)"
    and l: "lengths s = Some (map Some ls)" by blast
  have "lengths (run_ops io xs s) = Some (map Some ls)" for xs
    using l by (simp add: run_ops_lengths)
  with g l show ?thesis by (blast intro: dunder_len_known)
qed

theorem total_length_invariant_witness:
  "fst (create bytesio_ops test_files []) = Inr () \<and>
   dunder_len test_stream = Inr 14 \<and>
   dunder_len (run_ops bytesio_ops [Seek 5 SEEK_SET, Read1 3, Seek 20 SEEK_CUR, Read1 (- 1)]
                 test_stream) = Inr 14"
proof -
  have a: "fst (create bytesio_ops test_files []) = Inr ()" by code_simp
  then have c: "create bytesio_ops test_files [] = (Inr (), test_stream)"
    by (simp add: prod_eq_iff test_stream_def)
  have d: "dunder_len test_stream = Inr 14" by code_simp
  let ?xs = "[Seek 5 SEEK_SET, Read1 3, Seek 20 SEEK_CUR, Read1 (- 1)]"
  from total_length_invariant [OF c] obtain ls where
    e: "dunder_len test_stream = Inr (sum_list ls)" and
    f: "\<forall>xs. dunder_len (run_ops bytesio_ops xs test_stream) = Inr (sum_list ls)"
    by blast
  from f have g: "dunder_len (run_ops bytesio_ops ?xs test_stream) = Inr (sum_list ls)"
    by (rule spec)
  from e d have "sum_list ls = 14" by simp
  with g have "dunder_len (run_ops bytesio_ops ?xs test_stream) = Inr 14"
    by (simp only:)
  with a d show ?thesis by blast
qed

subsection \<open>The walk over the length table\<close>

lemma locate_props:
  "ls \<noteq> [] \<Longrightarrow>
   \<exists>k. locate ls p i = (p - sum_list (take k ls), i + k) \<and> k < length ls \<and>
       (\<forall>m<k. sum_list (take (Suc m) ls) \<le> p) \<and>
       (p - sum_list (take k ls) < ls ! k \<or> k = length ls - 1)"
proof (induction ls p i rule: locate.induct)
  case (1 p i)
  then show ?case by simp
next
  case (2 l p i)
  show ?case by (rule exI [of _ 0]) simp
next
  case (3 l l' ls p i)
  show ?case
  proof (cases "p \<ge> l")
    case True
    from 3(1) [OF True] obtain k where
      k: "locate (l' # ls) (p - l) (Suc i) = (p - l - sum_list (take k (l' # ls)), Suc i + k)"
         "k < length (l' # ls)"
         "\<forall>m<k. sum_list (take (Suc m) (l' # ls)) \<le> p - l"
         "p - l - sum_list (take k (l' # ls)) < (l' # ls) ! k \<or> k = length (l' # ls) - 1"
      by auto
    have all: "\<forall>m<Suc k. sum_list (take (Suc m) (l # l' # ls)) \<le> p"
    proof (intro allI impI)
      fix m assume "m < Suc k"
      show "sum_list (take (Suc m) (l # l' # ls)) \<le> p"
      proof (cases m)
        case 0
        with True show ?thesis by simp
      next
        case (Suc m')
        with \<open>m < Suc k\<close> k(3) have "sum_list (take (Suc m') (l' # ls)) \<le> p - l" by simp
        with Suc show ?thesis by simp
      qed
    qed
    show ?thesis
      apply (rule exI [of _ "Suc k"])
      using True k(1,2,4) all
      apply (simp add: algebra_simps)
      done
  next
    case False
    show ?thesis by (rule exI [of _ 0]) (use False in simp)
  qed
qed

lemma find_file_locate:
  assumes "lengths s = Some (map Some ls)" and "length ls = length (files s)"
    and "file_index s < length ls"
  shows "find_file s p =
           (Inr (fst (locate (drop (file_index s) ls) p (file_index s))),
            s\<lparr>file_index := snd (locate (drop (file_index s) ls) p (file_index s))\<rparr>)"
  using assms
proof (induction s p rule: find_file.induct)
  case (1 s p)
  let ?i = "file_index s"
  from "1.prems" have la: "length_at s ?i = Inr (ls ! ?i)"
    by (simp add: length_at_def)
  from "1.prems" have d: "drop ?i ls = ls ! ?i # drop (Suc ?i) ls"
    by (simp add: Cons_nth_drop_Suc)
  show ?case
  proof (cases "p \<ge> ls ! ?i \<and> ?i + 1 < length (files s)")
    case True
    with "1.prems" have d2: "drop (Suc ?i) ls = ls ! Suc ?i # drop (Suc (Suc ?i)) ls"
      by (simp add: Cons_nth_drop_Suc)
    have "find_file s p = find_file (s\<lparr>file_index := ?i + 1\<rparr>) (p - ls ! ?i)"
      using la True by (simp add: find_file.simps [of s p])
    also have "\<dots> = (Inr (fst (locate (drop (Suc ?i) ls) (p - ls ! ?i) (Suc ?i))),
            s\<lparr>file_index := snd (locate (drop (Suc ?i) ls) (p - ls ! ?i) (Suc ?i))\<rparr>)"
      using "1.IH" [OF la True] "1.prems" True by simp
    finally have ff: "find_file s p =
        (Inr (fst (locate (drop (Suc ?i) ls) (p - ls ! ?i) (Suc ?i))),
            s\<lparr>file_index := snd (locate (drop (Suc ?i) ls) (p - ls ! ?i) (Suc ?i))\<rparr>)" .
    have "locate (drop ?i ls) p ?i =
            locate (ls ! ?i # ls ! Suc ?i # drop (Suc (Suc ?i)) ls) p ?i"
      using d d2 by simp
    also have "\<dots> = locate (ls ! Suc ?i # drop (Suc (Suc ?i)) ls) (p - ls ! ?i) (Suc ?i)"
      using True by simp
    also have "\<dots> = locate (drop (Suc ?i) ls) (p - ls ! ?i) (Suc ?i)"
      using d2 by simp
    finally show ?thesis using ff by simp
  next
    case False
    show ?thesis
    proof (cases "?i + 1 < length (files s)")
      case True
      with "1.prems" have d2: "drop (Suc ?i) ls = ls ! Suc ?i # drop (Suc (Suc ?i)) ls"
        by (simp add: Cons_nth_drop_Suc)
      from True False have nle: "\<not> p \<ge> ls ! ?i" by simp
      then have "locate (drop ?i ls) p ?i = (p, ?i)"
        by (subst d, subst d2) simp
      with la nle show ?thesis by (simp add: find_file.simps [of s p])
    next
      case F: False
      with "1.prems" have "drop (Suc ?i) ls = []" by simp
      with d have "locate (drop ?i ls) p ?i = (p, ?i)" by simp
      with la F show ?thesis by (simp add: find_file.simps [of s p])
    qed
  qed
qed

subsection \<open>Where the walk stops\<close>

lemma prefix_sum_mono:
  assumes "\<forall>l \<in> set ls. (0::int) \<le> l" and "a \<le> b"
  shows "sum_list (take a ls) \<le> sum_list (take b ls)"
proof -
  from assms(2) have "take b ls = take a ls @ take (b - a) (drop a ls)"
    by (metis le_add_diff_inverse take_add)
  moreover have "0 \<le> sum_list (take (b - a) (drop a ls))"
    using assms(1) by (intro sum_list_nonneg) (auto dest: in_set_takeD in_set_dropD)
  ultimately show ?thesis by simp
qed

lemma prefix_sum_Suc:
  "m < length ls \<Longrightarrow> sum_list (take (Suc m) ls) = sum_list (take m ls) + (ls ! m :: int)"
  by (simp add: take_Suc_conv_app_nth)

lemma prefix_sum_le_total:
  assumes "\<forall>l \<in> set ls. (0::int) \<le> l"
  shows "sum_list (take a ls) \<le> sum_list ls"
  using prefix_sum_mono [OF assms, of a "max a (length ls)"] by simp

lemma locate_boundary:
  assumes nonneg: "\<forall>l \<in> set ls. 0 \<le> l" and i: "Suc i < length ls"
    and p: "p = sum_list (take (Suc i) ls)"
    and loc: "locate ls p 0 = (q, j)"
  shows "i < j \<and> j < length ls \<and> q = 0 \<and> (\<forall>m. i < m \<and> m < j \<longrightarrow> ls ! m = 0) \<and>
         (0 < ls ! j \<or> j = length ls - 1)"
proof -
  from i have ne: "ls \<noteq> []" by auto
  from locate_props [OF ne, of p 0] loc have
    q: "q = p - sum_list (take j ls)" and j: "j < length ls"
    and passed: "\<forall>m<j. sum_list (take (Suc m) ls) \<le> p"
    and stop: "q < ls ! j \<or> j = length ls - 1"
    by auto
  have ij: "i < j"
  proof (rule ccontr)
    assume "\<not> i < j"
    then have ji: "j \<le> i" by simp
    with i stop have "q < ls ! j" by auto
    with q have "p < sum_list (take (Suc j) ls)"
      using prefix_sum_Suc [OF j] by simp
    moreover from ji have "sum_list (take (Suc j) ls) \<le> sum_list (take (Suc i) ls)"
      by (intro prefix_sum_mono [OF nonneg]) simp
    ultimately show False using p by simp
  qed
  then obtain j' where j': "j = Suc j'" by (cases j) auto
  with passed have "sum_list (take j ls) \<le> p" by simp
  moreover from ij have "sum_list (take (Suc i) ls) \<le> sum_list (take j ls)"
    by (intro prefix_sum_mono [OF nonneg]) simp
  ultimately have eq: "sum_list (take j ls) = p" using p by simp
  with q have q0: "q = 0" by simp
  have zeros: "\<forall>m. i < m \<and> m < j \<longrightarrow> ls ! m = 0"
  proof (intro allI impI)
    fix m assume m: "i < m \<and> m < j"
    with j have ml: "m < length ls" by simp
    from m passed have "sum_list (take (Suc m) ls) \<le> p" by simp
    then have "sum_list (take m ls) + ls ! m \<le> p" using prefix_sum_Suc [OF ml] by simp
    moreover from m have "sum_list (take (Suc i) ls) \<le> sum_list (take m ls)"
      by (intro prefix_sum_mono [OF nonneg]) simp
    ultimately have "ls ! m \<le> 0" using p by simp
    moreover from nonneg ml have "0 \<le> ls ! m" by simp
    ultimately show "ls ! m = 0" by simp
  qed
  from stop q0 have "0 < ls ! j \<or> j = length ls - 1" by simp
  with ij j q0 zeros show ?thesis by blast
qed

lemma locate_end:
  assumes nonneg: "\<forall>l \<in> set ls. 0 \<le> l" and ne: "ls \<noteq> []"
    and p: "sum_list ls \<le> p"
    and loc: "locate ls p 0 = (q, j)"
  shows "j = length ls - 1 \<and> ls ! j \<le> q"
proof -
  from locate_props [OF ne, of p 0] loc have
    q: "q = p - sum_list (take j ls)" and j: "j < length ls"
    and stop: "q < ls ! j \<or> j = length ls - 1"
    by auto
  have "sum_list (take j ls) + ls ! j \<le> sum_list ls"
    using prefix_sum_Suc [OF j] prefix_sum_le_total [OF nonneg, of "Suc j"] by simp
  with p q have "ls ! j \<le> q" by simp
  with stop show ?thesis by auto
qed


lemma length_concat_int:
  "int (length (concat bs)) = sum_list (map (\<lambda>b. int (length b)) bs)"
  by (induction bs) simp_all

lemma locate_content:
  assumes ne: "bs \<noteq> []" and nn: "0 \<le> p"
    and loc: "locate (map (\<lambda>b. int (length b)) bs) p 0 = (q, j)"
  shows "drop (nat p) (concat bs) = drop (nat q) (bs ! j) @ concat (drop (Suc j) bs)"
proof -
  let ?ls = "map (\<lambda>b. int (length b)) bs"
  from ne have ne': "?ls \<noteq> []" by simp
  from locate_props [OF ne', of p 0] loc have
    q: "q = p - sum_list (take j ?ls)" and j: "j < length bs"
    and passed: "\<forall>m<j. sum_list (take (Suc m) ?ls) \<le> p"
    and stop: "q < ?ls ! j \<or> j = length ?ls - 1"
    by auto
  have pre: "sum_list (take j ?ls) \<le> p"
  proof (cases j)
    case 0
    with nn show ?thesis by simp
  next
    case (Suc m)
    with passed show ?thesis by simp
  qed
  have len: "int (length (concat (take j bs))) = sum_list (take j ?ls)"
    by (simp add: length_concat_int take_map)
  have split: "concat bs = concat (take j bs) @ bs ! j @ concat (drop (Suc j) bs)"
    using j by (metis append_take_drop_id concat_append Cons_nth_drop_Suc concat.simps(2))
  from pre len q have np: "nat p = length (concat (take j bs)) + nat q"
    using nn by (simp add: nat_add_distrib)
  have "drop (nat p) (concat bs) = drop (nat q) (bs ! j @ concat (drop (Suc j) bs))"
    by (subst split, subst np) (simp add: drop_append)
  also have "\<dots> = drop (nat q) (bs ! j) @ concat (drop (Suc j) bs)"
  proof (cases "q < ?ls ! j")
    case True
    with j show ?thesis by simp
  next
    case False
    with stop j have "drop (Suc j) bs = []" by simp
    then show ?thesis by simp
  qed
  finally show ?thesis .
qed

lemma locate_le:
  assumes "\<forall>l \<in> set ls. 0 \<le> l" and "ls \<noteq> []"
  shows "fst (locate ls p 0) \<le> p"
proof -
  from locate_props [OF assms(2), of p 0] obtain k where
    k: "locate ls p 0 = (p - sum_list (take k ls), 0 + k)" by blast
  have "0 \<le> sum_list (take k ls)"
    using assms(1) by (intro sum_list_nonneg) (auto dest: in_set_takeD)
  with k show ?thesis by simp
qed

lemma locate_within:
  assumes nonneg: "\<forall>l \<in> set ls. 0 \<le> l" and ne: "ls \<noteq> []"
    and p: "p \<le> sum_list ls"
    and loc: "locate ls p 0 = (q, j)"
  shows "q \<le> ls ! j"
proof -
  from locate_props [OF ne, of p 0] loc have
    q: "q = p - sum_list (take j ls)" and j: "j < length ls"
    and stop: "q < ls ! j \<or> j = length ls - 1"
    by auto
  show ?thesis
  proof (cases "q < ls ! j")
    case True
    then show ?thesis by simp
  next
    case False
    with stop have "j = length ls - 1" by simp
    with j have "sum_list (take (Suc j) ls) = sum_list ls" by simp
    then have "sum_list (take j ls) + ls ! j = sum_list ls"
      using prefix_sum_Suc [OF j] by simp
    with q p show ?thesis by simp
  qed
qed

subsection \<open>Streams over in-memory sources: the resync\<close>

lemma bytesio_ops_simps [simp]:
  "io_seek bytesio_ops = bytesio_seek"
  "io_tell bytesio_ops = bytesio_tell"
  "io_read bytesio_ops = bytesio_read"
  "io_readable bytesio_ops = bytesio_flag"
  "io_seekable bytesio_ops = bytesio_flag"
  by (simp_all add: bytesio_ops_def)

lemma gathered_flags:
  "list_all bytesio_ok fs \<Longrightarrow>
   fst (call_on_all_files (\<lambda>f. (bytesio_flag f, f)) fs) = Inr (map (\<lambda>f. True) fs)"
  by (induction fs) (auto simp: bytesio_flag_def bytesio_ok_def split: prod.splits sum.splits)

lemma open_ok_readable: "open_ok s \<Longrightarrow> readable bytesio_ops s = Inr True"
  by (simp add: open_ok_def readable_def gathered_flags list_all_iff)

lemma open_ok_seekable: "open_ok s \<Longrightarrow> seekable bytesio_ops s = Inr True"
  by (simp add: open_ok_def seekable_def gathered_flags list_all_iff)

lemma open_ok_table:
  "open_ok s \<Longrightarrow> lengths s = Some (map Some (declared s)) \<and>
     length (declared s) = length (files s) \<and> declared s \<noteq> []"
  by (simp add: open_ok_def declared_def)

lemma open_ok_source:
  "open_ok s \<Longrightarrow> j < length (files s) \<Longrightarrow> bytesio_ok (files s ! j)"
  by (simp add: open_ok_def list_all_length)

lemma declared_nonneg: "\<forall>l \<in> set (declared s). 0 \<le> l"
  by (simp add: declared_def)

lemma declared_nth:
  "j < length (files s) \<Longrightarrow> declared s ! j = int (length (buf (files s ! j)))"
  by (simp add: declared_def)

lemma same_bufs_declared: "map buf (files s') = map buf (files s) \<Longrightarrow> declared s' = declared s"
proof -
  assume a: "map buf (files s') = map buf (files s)"
  have "map (\<lambda>b. int (length b)) (map buf (files s')) =
        map (\<lambda>b. int (length b)) (map buf (files s))"
    by (simp only: a)
  then show ?thesis by (simp add: declared_def comp_def)
qed


lemma map_buf_update:
  "k < length fs \<Longrightarrow> buf f' = buf (fs ! k) \<Longrightarrow> map buf (fs[k := f']) = map buf fs"
  by (simp add: list_eq_iff_nth_eq nth_list_update)

lemma list_all_update:
  "list_all P fs \<Longrightarrow> P f' \<Longrightarrow> list_all P (fs[k := f'])"
  by (auto simp: list_all_iff dest!: set_update_subset_insert [THEN subsetD])

lemma open_ok_same_bufs:
  assumes "open_ok s" and "map buf (files s') = map buf (files s)"
    and "list_all bytesio_ok (files s')" and "lengths s' = lengths s"
    and "closed s' = closed s"
  shows "open_ok s'"
proof -
  from assms(2) have "declared s' = declared s" by (rule same_bufs_declared)
  moreover from assms(2) have "length (files s') = length (files s)"
    by (rule map_eq_imp_length_eq)
  ultimately show ?thesis using assms by (auto simp: open_ok_def)
qed

lemma locate_nonneg:
  assumes "ls \<noteq> []" and "0 \<le> p"
  shows "0 \<le> fst (locate ls p 0) \<and> snd (locate ls p 0) < length ls"
proof -
  from locate_props [OF assms(1), of p 0] obtain k where
    k: "locate ls p 0 = (p - sum_list (take k ls), 0 + k)" "k < length ls"
       "\<forall>m<k. sum_list (take (Suc m) ls) \<le> p" by blast
  have "sum_list (take k ls) \<le> p"
  proof (cases k)
    case 0
    with assms(2) show ?thesis by simp
  next
    case (Suc m)
    with k(3) show ?thesis by simp
  qed
  with k show ?thesis by simp
qed

text \<open>The native seek accepts the offset the walk finds when that offset is a
  \<^verbatim>\<open>Py_ssize_t\<close>; the resync then leaves the stream in step.\<close>

lemma recalc_file_in_step:
  assumes ok: "open_ok s" and nn: "0 \<le> pos s"
    and fit: "fst (locate (declared s) (pos s) 0) \<le> sys_maxsize"
  shows "\<exists>s'. recalc_file bytesio_ops s = (Inr (), s') \<and> in_step s' \<and> pos s' = pos s \<and>
           map buf (files s') = map buf (files s)"
proof -
  let ?ls = "declared s"
  define q where "q = fst (locate ?ls (pos s) 0)"
  define k where "k = snd (locate ?ls (pos s) 0)"
  let ?s0 = "s\<lparr>file_index := 0, file_pos := 0\<rparr>"
  define f' where "f' = (files s ! k)\<lparr>bpos := nat q\<rparr>"
  define s' where "s' = s\<lparr>file_index := k, files := (files s)[k := f'], file_pos := q\<rparr>"
  from open_ok_table [OF ok] have tab: "lengths s = Some (map Some ?ls)"
    "length ?ls = length (files s)" "?ls \<noteq> []" by simp_all
  from locate_nonneg [OF tab(3) nn] have q: "0 \<le> q" and k: "k < length (files s)"
    using tab(2) by (simp_all add: q_def k_def)
  from fit have qm: "q \<le> sys_maxsize" by (simp add: q_def)
  have ff: "find_file ?s0 (pos s) = (Inr q, ?s0\<lparr>file_index := k\<rparr>)"
    using find_file_locate [of ?s0 ?ls "pos s"] tab ok
    by (simp add: open_ok_def q_def k_def)
  from open_ok_source [OF ok k] have src: "bytesio_ok (files s ! k)" .
  have sk: "bytesio_seek (files s ! k) q SEEK_SET = (Inr q, f')"
    using src q qm
    by (simp add: bytesio_seek_def bytesio_ok_def ssize_ok_def c_int_ok_def f'_def
          SEEK_SET_def SEEK_CUR_def SEEK_END_def sys_maxsize_def)
  have f': "buf f' = buf (files s ! k)" "bytesio_ok f'"
    using src q qm by (simp_all add: f'_def bytesio_ok_def)
  have rc: "recalc_file bytesio_ops s = (Inr (), s')"
    unfolding recalc_file_def ff using k sk by (simp add: Let_def s'_def)
  have fs': "files s' = (files s)[k := f']" by (simp add: s'_def)
  have bufs: "map buf (files s') = map buf (files s)"
    unfolding fs' using k f'(1) by (rule map_buf_update)
  then have decl: "declared s' = declared s" by (rule same_bufs_declared)
  have ok': "open_ok s'"
    using ok bufs
  proof (rule open_ok_same_bufs)
    from ok have "list_all bytesio_ok (files s)" by (simp add: open_ok_def)
    then show "list_all bytesio_ok (files s')"
      unfolding fs' using f'(2) by (rule list_all_update)
  qed (simp_all add: s'_def)
  have "in_step s'"
    unfolding in_step_def decl using ok' q k nn
    by (simp add: s'_def f'_def q_def k_def)
  moreover have "pos s' = pos s" by (simp add: s'_def)
  ultimately show ?thesis using rc bufs by blast
qed

subsection \<open>Seek, then tell\<close>

lemma open_ok_pos_update [simp]: "open_ok (s\<lparr>pos := x\<rparr>) = open_ok s"
  by (simp add: open_ok_def declared_def)

lemma declared_pos_update [simp]: "declared (s\<lparr>pos := x\<rparr>) = declared s"
  by (simp add: declared_def)

lemma open_ok_dunder_len: "open_ok s \<Longrightarrow> dunder_len s = Inr (sum_list (declared s))"
  by (simp add: open_ok_def dunder_len_known)

lemma locate_index: "ls \<noteq> [] \<Longrightarrow> snd (locate ls p 0) < length ls"
  using locate_props [of ls p 0] by auto

lemma locate_negative:
  assumes "\<forall>l \<in> set ls. 0 \<le> l" and "ls \<noteq> []" and "p < 0"
  shows "locate ls p 0 = (p, 0)"
proof -
  from locate_props [OF assms(2), of p 0] obtain k where
    k: "locate ls p 0 = (p - sum_list (take k ls), 0 + k)" "k < length ls"
       "\<forall>m<k. sum_list (take (Suc m) ls) \<le> p" by blast
  have "k = 0"
  proof (rule ccontr)
    assume "k \<noteq> 0"
    with k(3) have "sum_list (take (Suc 0) ls) \<le> p" by simp
    moreover have "0 \<le> sum_list (take (Suc 0) ls)"
      using assms(1) by (intro sum_list_nonneg) (auto dest: in_set_takeD)
    ultimately show False using assms(3) by simp
  qed
  with k(1) show ?thesis by simp
qed

text \<open>Offsets within the declared lengths and offsets up to \<^verbatim>\<open>sys.maxsize\<close> are
  accepted by the native seek.\<close>

lemma offset_fits_within:
  assumes ok: "open_ok s" and nn: "0 \<le> p" and p: "p \<le> sum_list (declared s)"
  shows "fst (locate (declared s) p 0) \<le> sys_maxsize"
proof -
  let ?q = "fst (locate (declared s) p 0)"
  let ?k = "snd (locate (declared s) p 0)"
  from open_ok_table [OF ok] have tab: "length (declared s) = length (files s)"
    "declared s \<noteq> []" by simp_all
  from locate_index [OF tab(2), of p] tab(1) have k: "?k < length (files s)" by simp
  have "?q \<le> declared s ! ?k"
    using declared_nonneg tab(2) p by (rule locate_within) simp
  also have "\<dots> = int (length (buf (files s ! ?k)))" using k by (rule declared_nth)
  also have "\<dots> \<le> sys_maxsize"
    using open_ok_source [OF ok k] by (simp add: bytesio_ok_def)
  finally show ?thesis .
qed

lemma offset_fits_ssize:
  assumes ok: "open_ok s" and p: "p \<le> sys_maxsize"
  shows "fst (locate (declared s) p 0) \<le> sys_maxsize"
proof -
  from open_ok_table [OF ok] have "declared s \<noteq> []" by simp
  from locate_le [OF declared_nonneg this, of p] p show ?thesis by simp
qed

lemma recalc_file_returns:
  assumes ok: "open_ok s" and rc: "recalc_file bytesio_ops s = (Inr u, s')"
  shows "0 \<le> pos s \<and> fst (locate (declared s) (pos s) 0) \<le> sys_maxsize"
proof -
  let ?ls = "declared s"
  define q where "q = fst (locate ?ls (pos s) 0)"
  define k where "k = snd (locate ?ls (pos s) 0)"
  let ?s0 = "s\<lparr>file_index := 0, file_pos := 0\<rparr>"
  from open_ok_table [OF ok] have tab: "lengths s = Some (map Some ?ls)"
    "length ?ls = length (files s)" "?ls \<noteq> []" by simp_all
  from locate_index [OF tab(3), of "pos s"] tab(2) have k: "k < length (files s)"
    by (simp add: k_def)
  have ff: "find_file ?s0 (pos s) = (Inr q, ?s0\<lparr>file_index := k\<rparr>)"
    using find_file_locate [of ?s0 ?ls "pos s"] tab ok
    by (simp add: open_ok_def q_def k_def)
  obtain r f' where sk: "bytesio_seek (files s ! k) q SEEK_SET = (r, f')"
    by (cases "bytesio_seek (files s ! k) q SEEK_SET")
  from rc have "\<exists>v. r = Inr v"
    unfolding recalc_file_def ff using k sk by (cases r) (simp_all add: Let_def)
  then have q: "0 \<le> q \<and> q \<le> sys_maxsize"
    using sk by (auto simp: bytesio_seek_def ssize_ok_def SEEK_SET_def SEEK_CUR_def
        SEEK_END_def Let_def split: if_splits)
  have "0 \<le> pos s"
  proof (rule ccontr)
    assume "\<not> 0 \<le> pos s"
    then have neg: "pos s < 0" by simp
    from locate_negative [OF declared_nonneg tab(3) neg] q neg show False
      by (simp add: q_def)
  qed
  with q show ?thesis by (simp add: q_def)
qed

lemma seek_tail_in_step:
  assumes ok: "open_ok s" and sk: "seek_tail bytesio_ops s offset = (Inr r, s')"
  shows "in_step s' \<and> pos s' = r \<and> map buf (files s') = map buf (files s)"
proof -
  let ?s = "s\<lparr>pos := pos s + offset\<rparr>"
  from ok have ok': "open_ok ?s" by simp
  obtain x t where rc: "recalc_file bytesio_ops ?s = (x, t)"
    by (cases "recalc_file bytesio_ops ?s")
  with sk obtain u where x: "x = Inr u" and t: "s' = t" "r = pos t"
    by (cases x) (auto simp: seek_tail_def)
  from recalc_file_returns [OF ok' rc [unfolded x]]
  have nn: "0 \<le> pos ?s" and fit: "fst (locate (declared ?s) (pos ?s) 0) \<le> sys_maxsize"
    by simp_all
  from recalc_file_in_step [OF ok' nn fit] rc x obtain
    "in_step t" "pos t = pos ?s" "map buf (files t) = map buf (files ?s)"
    by auto
  with t show ?thesis by simp
qed

lemma seek_in_step:
  assumes ok: "open_ok s" and sk: "seek bytesio_ops s offset whence = (Inr r, s')"
  shows "in_step s' \<and> pos s' = r \<and> map buf (files s') = map buf (files s)"
proof -
  from ok have c: "\<not> closed s" by (simp add: open_ok_def)
  note sb = open_ok_seekable [OF ok]
  consider (from_start) "whence = SEEK_SET"
    | (from_current) "whence \<noteq> SEEK_SET" "whence = SEEK_CUR"
    | (from_end) "whence \<noteq> SEEK_SET" "whence \<noteq> SEEK_CUR" "whence = SEEK_END"
    | (unknown) "whence \<noteq> SEEK_SET" "whence \<noteq> SEEK_CUR" "whence \<noteq> SEEK_END"
    by blast
  then show ?thesis
  proof cases
    case from_start
    with sk c sb have "seek_tail bytesio_ops (s\<lparr>pos := 0\<rparr>) offset = (Inr r, s')"
      by (simp add: seek_def)
    from seek_tail_in_step [OF _ this] ok show ?thesis by simp
  next
    case from_current
    with sk c sb have "seek_tail bytesio_ops s offset = (Inr r, s')"
      by (simp add: seek_def)
    from seek_tail_in_step [OF ok this] show ?thesis .
  next
    case from_end
    with sk c sb obtain n where "seek_tail bytesio_ops (s\<lparr>pos := n\<rparr>) offset = (Inr r, s')"
      by (cases "py_len s") (simp_all add: seek_def)
    from seek_tail_in_step [OF _ this] ok show ?thesis by simp
  next
    case unknown
    with sk c sb show ?thesis by (simp add: seek_def)
  qed
qed

text \<open>A seek from the start returns when its target is not negative and the offset it
  hands to the native seek is a \<^verbatim>\<open>Py_ssize_t\<close>.\<close>

lemma seek_set_in_step:
  assumes ok: "open_ok s" and nn: "0 \<le> p"
    and fit: "fst (locate (declared s) p 0) \<le> sys_maxsize"
  shows "\<exists>s'. seek bytesio_ops s p SEEK_SET = (Inr p, s') \<and> in_step s' \<and> pos s' = p \<and>
           map buf (files s') = map buf (files s)"
proof -
  let ?s = "s\<lparr>pos := p\<rparr>"
  from ok have ok': "open_ok ?s" by simp
  from nn have nn': "0 \<le> pos ?s" by simp
  from fit have fit': "fst (locate (declared ?s) (pos ?s) 0) \<le> sys_maxsize" by simp
  from recalc_file_in_step [OF ok' nn' fit'] obtain s' where
    s': "recalc_file bytesio_ops ?s = (Inr (), s')" "in_step s'" "pos s' = p"
        "map buf (files s') = map buf (files s)"
    by auto
  from ok have c: "\<not> closed s" by (simp add: open_ok_def)
  have "seek bytesio_ops s p SEEK_SET = (Inr p, s')"
    using c open_ok_seekable [OF ok] s'(1,3) by (simp add: seek_def seek_tail_def)
  with s' show ?thesis by blast
qed

text \<open>
  Claim C1.  On an open stream with at least one source, each source open and holding
  as many bytes as the table declares, a seek from the start to any \<open>p\<close> between 0 and
  the total length returns \<open>p\<close>, and \<^verbatim>\<open>tell\<close> on the resulting state returns \<open>p\<close> as well.
  (A stream constructed without any source raises \<^verbatim>\<open>IndexError\<close> in every seek, lemma
  \<open>seek_without_sources\<close> below; the data model asks for an active index below the
  number of sources.)
\<close>

theorem seek_then_tell:
  assumes "open_ok s" and "dunder_len s = Inr n" and "0 \<le> p" and "p \<le> n"
  shows "\<exists>s'. seek bytesio_ops s p SEEK_SET = (Inr p, s') \<and> tell s' = Inr p"
proof -
  from assms(1,2,4) have "p \<le> sum_list (declared s)"
    by (simp add: open_ok_dunder_len)
  from offset_fits_within [OF assms(1,3) this]
  have "fst (locate (declared s) p 0) \<le> sys_maxsize" .
  from seek_set_in_step [OF assms(1,3) this] obtain s' where
    "seek bytesio_ops s p SEEK_SET = (Inr p, s')" "pos s' = p" by blast
  then show ?thesis by (auto simp: tell_def)
qed

theorem seek_then_tell_witness:
  "open_ok test_stream \<and> dunder_len test_stream = Inr 14 \<and>
   (\<exists>s'. seek bytesio_ops test_stream 11 SEEK_SET = (Inr 11, s') \<and> tell s' = Inr 11)"
proof -
  have a: "open_ok test_stream" by code_simp
  have b: "dunder_len test_stream = Inr 14" by code_simp
  from seek_then_tell [OF a b, of 11] a b show ?thesis by simp
qed

lemma seek_without_sources:
  "fst (create bytesio_ops [] []) = Inr () \<and>
   fst (seek bytesio_ops (snd (create bytesio_ops [] [])) 0 SEEK_SET) = Inl IndexError"
  by code_simp

subsection \<open>Streams over in-memory sources: a chunk read\<close>

lemma in_step_facts:
  assumes "in_step s"
  shows "open_ok s" and "0 \<le> pos s" and "0 \<le> file_pos s"
    and "file_index s < length (files s)"
    and "bytesio_ok (files s ! file_index s)"
    and "int (bpos (files s ! file_index s)) = file_pos s"
    and "locate (declared s) (pos s) 0 = (file_pos s, file_index s)"
proof -
  from assms show ok: "open_ok s" and nn: "0 \<le> pos s"
    and "int (bpos (files s ! file_index s)) = file_pos s"
    and loc: "locate (declared s) (pos s) 0 = (file_pos s, file_index s)"
    by (simp_all add: in_step_def)
  from open_ok_table [OF ok] have tab: "length (declared s) = length (files s)"
    "declared s \<noteq> []" by simp_all
  from locate_nonneg [OF tab(2) nn] loc tab(1)
  show "0 \<le> file_pos s" and k: "file_index s < length (files s)" by simp_all
  from open_ok_source [OF ok k] show "bytesio_ok (files s ! file_index s)" .
qed

lemma open_ok_length_at:
  "open_ok s \<Longrightarrow> j < length (files s) \<Longrightarrow>
   length_at s j = Inr (int (length (buf (files s ! j))))"
  by (simp add: open_ok_def length_at_def declared_def)


lemma locate_offset:
  "ls \<noteq> [] \<Longrightarrow> locate ls p 0 = (q, j) \<Longrightarrow>
   q = p - sum_list (take j ls) \<and> j < length ls"
  using locate_props [of ls p 0] by auto

lemma in_step_content:
  assumes st: "in_step s"
  shows "drop (nat (pos s)) (content s) =
           drop (nat (file_pos s)) (buf (files s ! file_index s)) @
           concat (map buf (drop (Suc (file_index s)) (files s)))"
proof -
  note f = in_step_facts [OF st]
  from f(4) have ne: "map buf (files s) \<noteq> []" by auto
  have loc: "locate (map (\<lambda>b. int (length b)) (map buf (files s))) (pos s) 0
               = (file_pos s, file_index s)"
    using f(7) by (simp add: declared_def comp_def)
  from locate_content [OF ne f(2) loc] f(4) show ?thesis
    by (simp add: content_def drop_map)
qed

lemma in_step_source_rest:
  assumes st: "in_step s"
  shows "source_rest (declared s) (pos s) =
           length (buf (files s ! file_index s)) - nat (file_pos s)"
proof -
  note f = in_step_facts [OF st]
  have "source_rest (declared s) (pos s) = nat (declared s ! file_index s - file_pos s)"
    by (simp add: source_rest_def f(7))
  also have "\<dots> = length (buf (files s ! file_index s)) - nat (file_pos s)"
    using declared_nth [OF f(4)] f(3) by simp
  finally show ?thesis .
qed

text \<open>The end of the active source is not beyond the total length.\<close>

lemma in_step_source_end:
  assumes st: "in_step s"
  shows "pos s - file_pos s + int (length (buf (files s ! file_index s)))
           \<le> sum_list (declared s)"
proof -
  note f = in_step_facts [OF st]
  from open_ok_table [OF f(1)] have tab: "length (declared s) = length (files s)"
    "declared s \<noteq> []" by simp_all
  from locate_offset [OF tab(2) f(7)] have
    q: "file_pos s = pos s - sum_list (take (file_index s) (declared s))"
    and j: "file_index s < length (declared s)" by simp_all
  have "sum_list (take (file_index s) (declared s)) + declared s ! file_index s
          \<le> sum_list (declared s)"
    using prefix_sum_Suc [OF j] prefix_sum_le_total [OF declared_nonneg, of "Suc (file_index s)" s]
    by simp
  with q declared_nth [OF f(4)] show ?thesis by simp
qed

lemma read1_in_step:
  assumes st: "in_step s" and amount: "ssize_ok a"
  shows "\<exists>d s'. read1 bytesio_ops s a = (Inr d, s') \<and> in_step s' \<and>
           pos s' = pos s + int (length d) \<and>
           map buf (files s') = map buf (files s) \<and>
           length d = chunk_size (declared s) (pos s) a \<and>
           d = take (length d) (drop (nat (pos s)) (content s))"
proof -
  let ?j = "file_index s"
  let ?f = "files s ! ?j"
  let ?b = "buf ?f"
  let ?q = "file_pos s"
  define avail where "avail = length ?b - nat ?q"
  define k where "k = (if a < 0 \<or> int avail < a then avail else nat a)"
  define d where "d = take k (drop (nat ?q) ?b)"
  define f1 where "f1 = ?f\<lparr>bpos := bpos ?f + k\<rparr>"
  define s1 where "s1 = s\<lparr>files := (files s)[?j := f1]\<rparr>"
  define s3 where "s3 = s1\<lparr>file_pos := int (bpos ?f + k), pos := pos s + int (length d)\<rparr>"
  note f = in_step_facts [OF st]
  from f(5) have src: "\<not> bclosed ?f" "int (length ?b) \<le> sys_maxsize"
    "int (bpos ?f) \<le> sys_maxsize" by (simp_all add: bytesio_ok_def)
  from f(6) have bp: "bpos ?f = nat ?q" by simp
  have k_le: "k \<le> avail" by (auto simp: k_def)
  have ld: "length d = k" using k_le by (simp add: d_def avail_def)
  have rd: "bytesio_read ?f a = (Inr d, f1)"
    using src(1) amount
    by (simp add: bytesio_read_def Let_def bp k_def d_def f1_def avail_def)
  have "int (bpos ?f + k) \<le> sys_maxsize"
  proof (cases "k = 0")
    case True
    with src(3) show ?thesis by simp
  next
    case False
    with k_le have "bpos ?f + k \<le> length ?b" by (simp add: avail_def bp)
    with src(2) show ?thesis by simp
  qed
  with src have f1: "buf f1 = ?b" "bytesio_ok f1" "bpos f1 = bpos ?f + k"
    by (simp_all add: f1_def bytesio_ok_def)
  have bufs1: "map buf (files s1) = map buf (files s)"
    using f(4) f1(1) by (simp add: s1_def map_buf_update)
  have fs1: "files s1 = (files s)[?j := f1]" by (simp add: s1_def)
  have ok1: "open_ok s1"
    using f(1) bufs1
  proof (rule open_ok_same_bufs)
    from f(1) have "list_all bytesio_ok (files s)" by (simp add: open_ok_def)
    then show "list_all bytesio_ok (files s1)"
      unfolding fs1 using f1(2) by (rule list_all_update)
  qed (simp_all add: s1_def)
  have j1: "file_index s1 = ?j" "length (files s1) = length (files s)"
    "files s1 ! ?j = f1" "file_pos s1 = ?q" "pos s1 = pos s"
    using f(4) by (simp_all add: s1_def)
  have fl: "file_length s1 = Inr (int (length ?b))"
    using open_ok_length_at [OF ok1, of ?j] f(4) j1 f1(1) by (simp add: file_length_def)
  have len_d: "\<not> max (int (length ?b) - ?q) 0 < int (length d)"
    using f(3) by (auto simp: d_def)
  have tl: "bytesio_tell f1 = Inr (int (bpos ?f + k))"
    using f1 by (simp add: bytesio_tell_def bytesio_ok_def)
  from ok1 have la1: "list_all bytesio_ok (files s1)" by (simp add: open_ok_def)
  have ok3: "open_ok s3"
    using ok1 by (rule open_ok_same_bufs) (use la1 in \<open>simp_all add: s3_def\<close>)
  have nn3: "0 \<le> pos s3" using f(2) by (simp add: s3_def)
  have decl3: "declared s3 = declared s"
    using bufs1 by (intro same_bufs_declared) (simp add: s3_def)
  have fit3: "fst (locate (declared s3) (pos s3) 0) \<le> sys_maxsize"
  proof (cases "k = 0")
    case True
    with ld have "pos s3 = pos s" by (simp add: s3_def)
    with f(7) decl3 have "fst (locate (declared s3) (pos s3) 0) = ?q" by simp
    also have "\<dots> \<le> sys_maxsize" using src(3) f(6) by simp
    finally show ?thesis .
  next
    case False
    with k_le have "int k \<le> int (length ?b) - ?q" using f(3) by (simp add: avail_def)
    moreover have "pos s3 = pos s + int k" by (simp add: s3_def ld)
    ultimately have "pos s3 \<le> sum_list (declared s3)"
      unfolding decl3 using in_step_source_end [OF st] by simp
    from offset_fits_within [OF ok3 nn3 this] show ?thesis .
  qed
  from recalc_file_in_step [OF ok3 nn3 fit3] obtain s' where
    s': "recalc_file bytesio_ops s3 = (Inr (), s')" "in_step s'" "pos s' = pos s3"
        "map buf (files s') = map buf (files s3)" by blast
  from f(1) have nc: "\<not> closed s" by (simp add: open_ok_def)
  have s3_eq: "s1\<lparr>file_pos := int (bpos ?f + k),
                    pos := pos (s1\<lparr>file_pos := int (bpos ?f + k)\<rparr>) + int (length d)\<rparr> = s3"
    by (simp add: s3_def j1)
  have r: "read1 bytesio_ops s a = (Inr d, s')"
    unfolding read1_def Let_def
    apply (simp only: nc if_False open_ok_readable [OF f(1)] sum.case bool.case f(4) if_True
             bytesio_ops_simps rd prod.case s1_def [symmetric] fl j1 len_d tl s3_eq s'(1))
    done
  have size: "length d = chunk_size (declared s) (pos s) a"
    unfolding ld k_def chunk_size_def in_step_source_rest [OF st] avail_def by simp
  have "take (length d) (drop (nat (pos s)) (content s)) = take (length d) (drop (nat ?q) ?b)"
    unfolding in_step_content [OF st] using ld k_le by (simp add: avail_def)
  also have "\<dots> = take k (drop (nat ?q) ?b)" by (simp only: ld)
  also have "\<dots> = d" by (simp only: d_def)
  finally have pre: "d = take (length d) (drop (nat (pos s)) (content s))" by simp
  from s'(3) have "pos s' = pos s + int (length d)" by (simp add: s3_def)
  moreover from s'(4) bufs1 have "map buf (files s') = map buf (files s)"
    by (simp add: s3_def)
  ultimately show ?thesis using r s'(2) size pre by blast
qed

subsection \<open>Seeking to a boundary and beyond the end\<close>

lemma read1_at_end:
  assumes st: "in_step s" and e: "sum_list (declared s) \<le> pos s" and amount: "ssize_ok a"
  shows "\<exists>s'. read1 bytesio_ops s a = (Inr [], s') \<and> in_step s' \<and> pos s' = pos s \<and>
           declared s' = declared s"
proof -
  note f = in_step_facts [OF st]
  from open_ok_table [OF f(1)] have ne: "declared s \<noteq> []" by simp
  from locate_end [OF declared_nonneg ne e f(7)]
  have "declared s ! file_index s \<le> file_pos s" by (rule conjunct2)
  then have "int (length (buf (files s ! file_index s))) \<le> file_pos s"
    using declared_nth [OF f(4)] by simp
  then have "source_rest (declared s) (pos s) = 0"
    unfolding in_step_source_rest [OF st] by simp
  then have z: "chunk_size (declared s) (pos s) a = 0"
    by (auto simp: chunk_size_def)
  from read1_in_step [OF st amount] obtain d s' where
    r: "read1 bytesio_ops s a = (Inr d, s')" "in_step s'" "pos s' = pos s + int (length d)"
       "map buf (files s') = map buf (files s)"
       "length d = chunk_size (declared s) (pos s) a"
    by blast
  from r(5) z have "d = []" by simp
  with r same_bufs_declared [OF r(4)] show ?thesis by simp
qed

lemma read_chunks_at_end:
  "in_step s \<Longrightarrow> sum_list (declared s) \<le> pos s \<Longrightarrow> list_all ssize_ok as \<Longrightarrow>
   \<exists>s'. read_chunks bytesio_ops s as = (Inr (map (\<lambda>a. []) as), s')"
proof (induction as arbitrary: s)
  case Nil
  then show ?case by simp
next
  case (Cons a as)
  from Cons.prems(3) have a: "ssize_ok a" and as: "list_all ssize_ok as" by simp_all
  from read1_at_end [OF Cons.prems(1,2) a] obtain s1 where
    s1: "read1 bytesio_ops s a = (Inr [], s1)" "in_step s1" "pos s1 = pos s"
        "declared s1 = declared s" by blast
  from Cons.prems(2) s1 have "sum_list (declared s1) \<le> pos s1" by simp
  from Cons.IH [OF s1(2) this as] obtain s2 where
    "read_chunks bytesio_ops s1 as = (Inr (map (\<lambda>a. []) as), s2)" by blast
  with s1(1) show ?case by simp
qed

text \<open>
  Claim C2, as the code has it.  On an open stream over in-memory sources that hold what the
  table declares, after a seek (of any origin) that returned the boundary between source
  \<open>i\<close> and source \<open>i + 1\<close>, the active offset is 0 and the active index is the first
  source after \<open>i\<close> that is not empty, or the last source when all of them are empty; it
  is \<open>i + 1\<close> whenever source \<open>i + 1\<close> is not empty or is the last one.  After a seek
  that returned the total length or more, the active index is the last source and every
  sequence of chunk reads whose amounts are machine-size integers returns empty results
  only.
\<close>

theorem seek_boundaries:
  assumes ok: "open_ok s" and sk: "seek bytesio_ops s offset whence = (Inr r, s')"
  shows "(\<forall>i. Suc i < length (files s) \<and> r = sum_list (take (Suc i) (declared s)) \<longrightarrow>
            i < file_index s' \<and> file_index s' < length (files s) \<and> file_pos s' = 0 \<and>
            (\<forall>m. i < m \<and> m < file_index s' \<longrightarrow> declared s ! m = 0) \<and>
            (0 < declared s ! file_index s' \<or> file_index s' = length (files s) - 1) \<and>
            (0 < declared s ! Suc i \<or> Suc i = length (files s) - 1 \<longrightarrow>
               file_index s' = Suc i)) \<and>
         (sum_list (declared s) \<le> r \<longrightarrow>
            file_index s' = length (files s) - 1 \<and>
            (\<forall>as. list_all ssize_ok as \<longrightarrow>
               (\<exists>s''. read_chunks bytesio_ops s' as = (Inr (map (\<lambda>a. []) as), s''))))"
proof -
  from seek_in_step [OF ok sk] have st: "in_step s'" and r: "pos s' = r"
    and bufs: "map buf (files s') = map buf (files s)" by simp_all
  from bufs have decl: "declared s' = declared s" by (rule same_bufs_declared)
  from open_ok_table [OF ok] have tab: "length (declared s) = length (files s)"
    "declared s \<noteq> []" by simp_all
  from in_step_facts(7) [OF st] have loc: "locate (declared s) r 0 = (file_pos s', file_index s')"
    by (simp add: decl r)
  have boundary: "i < file_index s' \<and> file_index s' < length (files s) \<and> file_pos s' = 0 \<and>
            (\<forall>m. i < m \<and> m < file_index s' \<longrightarrow> declared s ! m = 0) \<and>
            (0 < declared s ! file_index s' \<or> file_index s' = length (files s) - 1) \<and>
            (0 < declared s ! Suc i \<or> Suc i = length (files s) - 1 \<longrightarrow>
               file_index s' = Suc i)"
    if i: "Suc i < length (files s)" and b: "r = sum_list (take (Suc i) (declared s))" for i
  proof -
    from i tab have i': "Suc i < length (declared s)" by simp
    from locate_boundary [OF declared_nonneg i' b loc] tab have
      a: "i < file_index s'" "file_index s' < length (files s)" "file_pos s' = 0"
         "\<forall>m. i < m \<and> m < file_index s' \<longrightarrow> declared s ! m = 0"
         "0 < declared s ! file_index s' \<or> file_index s' = length (files s) - 1"
      by simp_all
    have "file_index s' = Suc i" if "0 < declared s ! Suc i \<or> Suc i = length (files s) - 1"
    proof (rule ccontr)
      assume "file_index s' \<noteq> Suc i"
      with a(1) have lt: "Suc i < file_index s'" by simp
      with a(4) have "declared s ! Suc i = 0" by simp
      with that a(2) lt show False by auto
    qed
    with a show ?thesis by blast
  qed
  have ending: "file_index s' = length (files s) - 1 \<and>
            (\<forall>as. list_all ssize_ok as \<longrightarrow>
               (\<exists>s''. read_chunks bytesio_ops s' as = (Inr (map (\<lambda>a. []) as), s'')))"
    if e: "sum_list (declared s) \<le> r"
  proof -
    from locate_end [OF declared_nonneg tab(2) e loc] tab
    have "file_index s' = length (files s) - 1" by simp
    moreover from e have "sum_list (declared s') \<le> pos s'" by (simp add: decl r)
    from read_chunks_at_end [OF st this]
    have "\<forall>as. list_all ssize_ok as \<longrightarrow>
        (\<exists>s''. read_chunks bytesio_ops s' as = (Inr (map (\<lambda>a. []) as), s''))" by blast
    ultimately show ?thesis by simp
  qed
  from boundary ending show ?thesis by blast
qed

theorem seek_boundaries_witness:
  "open_ok test_stream \<and>
   fst (seek bytesio_ops test_stream 4 SEEK_SET) = Inr 4 \<and>
   file_index (snd (seek bytesio_ops test_stream 4 SEEK_SET)) = Suc 0 \<and>
   file_pos (snd (seek bytesio_ops test_stream 4 SEEK_SET)) = 0 \<and>
   fst (seek bytesio_ops test_stream 2 SEEK_END) = Inr 16 \<and>
   file_index (snd (seek bytesio_ops test_stream 2 SEEK_END)) = length (files test_stream) - 1 \<and>
   list_all ssize_ok [1, - 1, 5] \<and>
   (\<exists>s''. read_chunks bytesio_ops (snd (seek bytesio_ops test_stream 2 SEEK_END)) [1, - 1, 5]
            = (Inr [[], [], []], s''))"
proof -
  let ?s4 = "snd (seek bytesio_ops test_stream 4 SEEK_SET)"
  let ?s16 = "snd (seek bytesio_ops test_stream 2 SEEK_END)"
  have a: "open_ok test_stream" by code_simp
  have b4: "fst (seek bytesio_ops test_stream 4 SEEK_SET) = Inr 4" by code_simp
  then have c4: "seek bytesio_ops test_stream 4 SEEK_SET = (Inr 4, ?s4)"
    by (simp add: prod_eq_iff)
  have b16: "fst (seek bytesio_ops test_stream 2 SEEK_END) = Inr 16" by code_simp
  then have c16: "seek bytesio_ops test_stream 2 SEEK_END = (Inr 16, ?s16)"
    by (simp add: prod_eq_iff)
  have i: "Suc 0 < length (files test_stream)"
    "4 = sum_list (take (Suc 0) (declared test_stream))"
    "0 < declared test_stream ! Suc 0"
    "sum_list (declared test_stream) \<le> 16"
    by code_simp+
  have am: "list_all ssize_ok [1, - 1, 5]" by code_simp
  from seek_boundaries [OF a c4] i(1,2,3)
  have r4: "file_index ?s4 = Suc 0 \<and> file_pos ?s4 = 0" by blast
  from seek_boundaries [OF a c16] i(4)
  have r16: "file_index ?s16 = length (files test_stream) - 1 \<and>
     (\<forall>as. list_all ssize_ok as \<longrightarrow>
        (\<exists>s''. read_chunks bytesio_ops ?s16 as = (Inr (map (\<lambda>a. []) as), s'')))"
    by blast
  with am obtain s'' where "read_chunks bytesio_ops ?s16 [1, - 1, 5]
        = (Inr (map (\<lambda>a. []) [1, - 1, 5 :: int]), s'')" by blast
  then have "\<exists>s''. read_chunks bytesio_ops ?s16 [1, - 1, 5] = (Inr [[], [], []], s'')"
    by simp
  with a b4 b16 r4 r16 am show ?thesis by blast
qed

text \<open>
  Claim C2 as stated fails where an empty source follows the boundary: with the sources
  \<open>ab\<close>, the empty one and \<open>c\<close>, a seek to 2, the boundary between source 0 and source 1,
  leaves the active index at 2.
\<close>

theorem seek_boundary_counterexample:
  "open_ok gap_stream \<and> Suc 0 < length (files gap_stream) \<and>
   sum_list (take (Suc 0) (declared gap_stream)) = 2 \<and>
   fst (seek bytesio_ops gap_stream 2 SEEK_SET) = Inr 2 \<and>
   file_index (snd (seek bytesio_ops gap_stream 2 SEEK_SET)) = 2 \<and>
   file_index (snd (seek bytesio_ops gap_stream 2 SEEK_SET)) \<noteq> Suc 0"
  by code_simp

text \<open>What the sources refuse, the stream refuses: a seek whose native offset is beyond
  \<^verbatim>\<open>sys.maxsize\<close> and a chunk read of \<open>2 ^ 63\<close> bytes raise the sources' \<^verbatim>\<open>OverflowError\<close>.\<close>

lemma beyond_machine_size:
  "fst (seek bytesio_ops test_stream (sys_maxsize + 12) SEEK_SET) = Inl OverflowError \<and>
   fst (read1 bytesio_ops (snd (seek bytesio_ops test_stream 16 SEEK_SET)) (2 ^ 63))
     = Inl OverflowError"
  by code_simp

subsection \<open>Chunk reads return consecutive bytes\<close>






subsection \<open>Chunked reads against one larger read\<close>

declare readinto_loop.simps [simp del]



text \<open>A freshly opened stream is in step when its sources are new in-memory objects and
  the first one is not empty (or is the only one).\<close>

lemma flen_bytesio: "\<not> bclosed f \<Longrightarrow> flen bytesio_ops f = (Inr (Some (int (length (buf f)))), f)"
  by (simp add: flen_def bytesio_ops_def bytesio_getbuffer_len_def)

lemma gathered_lengths:
  "list_all (\<lambda>f. \<not> bclosed f) fs \<Longrightarrow>
   call_on_all_files (flen bytesio_ops) fs = (Inr (map (\<lambda>f. Some (int (length (buf f)))) fs), fs)"
  by (induction fs) (simp_all add: flen_bytesio)

lemma first_none_Some: "first_none (map Some xs) i = None"
  by (induction xs arbitrary: i) simp_all

lemma fresh_in_step:
  assumes new: "list_all (\<lambda>f. bytesio_ok f \<and> bpos f = 0) fs" and ne: "fs \<noteq> []"
    and first: "buf (hd fs) \<noteq> [] \<or> length fs = 1"
  shows "\<exists>s. create bytesio_ops fs nm = (Inr (), s) \<and> in_step s \<and> pos s = 0 \<and> files s = fs"
proof -
  let ?s = "(init fs nm)\<lparr>files := fs,
      lengths := Some (map (\<lambda>f. Some (int (length (buf f)))) fs),
      closed := False, inited := True\<rparr>"
  from new have open_all: "list_all (\<lambda>f. \<not> bclosed f) fs" and ok_all: "list_all bytesio_ok fs"
    by (auto simp: list_all_iff bytesio_ok_def)
  have fn: "first_none (map (\<lambda>f. Some (int (length (buf f)))) fs) 0 = None"
    using first_none_Some [of "map (\<lambda>f. int (length (buf f))) fs" 0] by (simp add: comp_def)
  have cr: "create bytesio_ops fs nm = (Inr (), ?s)"
    by (simp add: create_def aenter_def init_def gathered_lengths [OF open_all] fn Let_def)
  have ok: "open_ok ?s"
    using ne ok_all by (simp add: open_ok_def init_def declared_def comp_def)
  from ne obtain f fs' where fs: "fs = f # fs'" by (cases fs) auto
  have loc: "locate (declared ?s) 0 0 = (0, 0)"
  proof (cases fs')
    case Nil
    with fs show ?thesis by (simp add: declared_def init_def)
  next
    case (Cons g gs)
    with fs first have "buf f \<noteq> []" by simp
    with fs Cons show ?thesis by (simp add: declared_def init_def)
  qed
  from new fs have "bpos (fs ! 0) = 0" by simp
  with ok loc have "in_step ?s" by (simp add: in_step_def init_def)
  with cr show ?thesis by (auto simp: init_def)
qed




text \<open>Not covered by the theorem: a freshly opened stream whose first source is empty is
  not in step until the first seek or chunk read; there the first chunk read returns
  nothing although bytes follow, and \<^verbatim>\<open>readinto\<close> stops at once.\<close>

lemma fresh_stream_empty_first_source:
  "\<not> in_step empty_first_stream \<and>
   fst (read1 bytesio_ops empty_first_stream 3) = Inr [] \<and>
   fst (readinto bytesio_ops empty_first_stream (replicate 3 (CHR 0x00))) = Inr 0 \<and>
   fst (read_chunks bytesio_ops empty_first_stream [1, 1, 1]) = Inr [[], ''a'', ''b'']"
  by code_simp

end
